theory Spec2Isabelle
  imports Complex_Main "HOL-Library.Word" "HOL-Library.Sublist"
begin

unbundle bit_operations_syntax

section \<open>Netlink messages (github.com/mdlayher/netlink)\<close>

text \<open>
  The consumer of \<^verbatim>\<open>pkg/ebpf/netlink/consumer.go\<close> handles values of the library type
  \<^verbatim>\<open>netlink.Message\<close>: a header of five fixed-width fields and a byte slice.
\<close>

type_synonym byte = "8 word"

record Header =
  Length :: "32 word"
  Type :: "16 word"
  Flags :: "16 word"
  Sequence :: "32 word"
  PID :: "32 word"

record Message =
  Header :: Header
  Data :: "byte list"

text \<open>The header types \<^verbatim>\<open>netlink.Error\<close> and \<^verbatim>\<open>netlink.Done\<close> of the library.\<close>

definition netlink_Error :: "16 word" where
  "netlink_Error = 2"

definition netlink_Done :: "16 word" where
  "netlink_Done = 3"

text \<open>
  \<^verbatim>\<open>nlenc.Int32\<close> reads four bytes in the byte order of the machine. The agent's system
  probe runs on little-endian Linux targets, so the first byte is the least significant.
  The function is only ever called on a slice of exactly four bytes.
\<close>

fun nlenc_Int32 :: "byte list \<Rightarrow> 32 word" where
  "nlenc_Int32 [b0, b1, b2, b3] =
     ucast b0 OR push_bit 8 (ucast b1) OR push_bit 16 (ucast b2) OR push_bit 24 (ucast b3)"
| "nlenc_Int32 bs = 0"

section \<open>Errors\<close>

text \<open>
  The package's sentinel errors, the raw system call error number \<^verbatim>\<open>syscall.Errno\<close>
  (a \<^verbatim>\<open>uintptr\<close>, 64 bits wide on the supported targets), an error of a collaborator known
  by its message, and the wrapping \<^verbatim>\<open>fmt.Errorf("failed to attach BPF filter: %w", err)\<close>.
\<close>

datatype error =
    errShortErrorMessage
  | errMaxSamplingAttempts
  | errEOF
  | errENOBUF
  | Errno "64 word"
  | ErrOther string
  | ErrAttachBPF error

section \<open>checkMessage\<close>

text \<open>
  \<^verbatim>\<open>-1 * int(c)\<close> is computed on the 64-bit \<^verbatim>\<open>int\<close>, where it cannot overflow, and is
  then converted to the unsigned \<^verbatim>\<open>Errno\<close>.
\<close>

definition checkMessage :: "Message \<Rightarrow> error option" where
  "checkMessage m =
     (if Type (Header m) \<noteq> netlink_Error then None
      else if length (Data m) < 4 then Some errShortErrorMessage
      else (let c = nlenc_Int32 (take 4 (Data m))
            in if c \<noteq> 0 then Some (Errno (word_of_int (- 1 * sint c))) else None))"

section \<open>Sampling rates: \<^verbatim>\<open>float64\<close>\<close>

text \<open>
  The sampling rate is a \<^verbatim>\<open>float64\<close>. The consumer only ever stores \<^verbatim>\<open>1.0\<close> or the product
  of a stored rate and \<^verbatim>\<open>0.8\<close>, so every rate is a positive normal double. Such a double is
  \<open>m * 2 ^ e\<close> with a 53-bit significand \<open>2 ^ 52 \<le> m < 2 ^ 53\<close>; \<open>F64 m e\<close> is that number
  (and \<open>F64 0 0\<close> is the zero value of a fresh struct field).
\<close>

datatype float64 = F64 nat int

fun valof :: "float64 \<Rightarrow> rat" where
  "valof (F64 m e) = (if 0 \<le> e then of_nat m * 2 ^ nat e else of_nat m / 2 ^ nat (- e))"

text \<open>\<open>roundEven p k\<close> is \<open>p / 2 ^ k\<close> rounded to the nearest integer, ties to even.\<close>

definition roundEven :: "nat \<Rightarrow> nat \<Rightarrow> nat" where
  "roundEven p k =
     (if k = 0 then p
      else (let q = p div 2 ^ k; r = p mod 2 ^ k; h = 2 ^ (k - 1)
            in if h < r \<or> (r = h \<and> odd q) then q + 1 else q))"

text \<open>
  The exact product of two 53-bit significands has 105 or 106 bits; IEEE 754 rounds it to
  53 bits (round to nearest, ties to even), and a significand that rounds up to \<open>2 ^ 53\<close>
  moves to the next exponent.
\<close>

definition round53 :: "nat \<Rightarrow> int \<Rightarrow> float64" where
  "round53 p e =
     (let k = (if p < 2 ^ 105 then 52 else 53); m = roundEven p k
      in if m = 2 ^ 53 then F64 (2 ^ 52) (e + int k + 1) else F64 m (e + int k))"

fun fmul :: "float64 \<Rightarrow> float64 \<Rightarrow> float64" where
  "fmul (F64 m1 e1) (F64 m2 e2) = round53 (m1 * m2) (e1 + e2)"

fun fle :: "float64 \<Rightarrow> float64 \<Rightarrow> bool" where
  "fle (F64 m1 e1) (F64 m2 e2) =
     (let e = min e1 e2 in m1 * 2 ^ nat (e1 - e) \<le> m2 * 2 ^ nat (e2 - e))"

text \<open>
  The constants of the package. An untyped Go constant used in a \<^verbatim>\<open>float64\<close> expression
  is converted to the nearest double: \<^verbatim>\<open>0.8\<close> is \<^verbatim>\<open>0x3FE999999999999A\<close> and \<^verbatim>\<open>0.2\<close> is
  \<^verbatim>\<open>0x3FC999999999999A\<close>.
\<close>

definition float_one :: float64 where
  "float_one = F64 4503599627370496 (- 52)"

definition throttlingFactor :: float64 where
  "throttlingFactor = F64 7205759403792794 (- 53)"

definition minSamplingThreshold :: float64 where
  "minSamplingThreshold = F64 7205759403792794 (- 55)"

section \<open>Buffer pool\<close>

text \<open>
  A buffer is a pointer to a page-sized byte slice, identified by its address.
  \<^verbatim>\<open>bufferPool\<close> embeds a \<^verbatim>\<open>sync.Pool\<close> of the Go standard library: a collection of free
  items, \<^verbatim>\<open>Put\<close> adding an item and \<^verbatim>\<open>Get\<close> taking one out or, when there is none, calling
  \<^verbatim>\<open>New\<close>. The field \<open>allocated\<close> counts the calls of \<^verbatim>\<open>New\<close> and names the next fresh buffer.
\<close>

type_synonym buffer = nat

record bufferPool =
  inUse :: "buffer option"
  Pool :: "buffer list"
  allocated :: nat

definition newBufferPool :: bufferPool where
  "newBufferPool = \<lparr>inUse = None, Pool = [], allocated = 0\<rparr>"

definition Pool_Get :: "bufferPool \<Rightarrow> buffer \<times> bufferPool" where
  "Pool_Get b =
     (case Pool b of
        [] \<Rightarrow> (allocated b, b\<lparr>allocated := Suc (allocated b)\<rparr>)
      | x # xs \<Rightarrow> (x, b\<lparr>Pool := xs\<rparr>))"

definition Put :: "bufferPool \<Rightarrow> buffer \<Rightarrow> bufferPool" where
  "Put b x = b\<lparr>Pool := x # Pool b\<rparr>"

definition Get :: "bufferPool \<Rightarrow> buffer \<times> bufferPool" where
  "Get b = (case Pool_Get b of (buf, b') \<Rightarrow> (buf, b'\<lparr>inUse := Some buf\<rparr>))"

definition Reset :: "bufferPool \<Rightarrow> bufferPool" where
  "Reset b = b\<lparr>inUse := None\<rparr>"

section \<open>Events\<close>

text \<open>
  An \<^verbatim>\<open>Event\<close> holds the messages of one read and the buffer they live in. Its third field
  points to the pool of the consumer; the pool is a shared object, so \<^verbatim>\<open>Done\<close> takes the
  current state of that pool and returns the new one.
\<close>

record Event =
  msgs :: "Message list"
  buffer :: "buffer option"

definition Messages :: "Event \<Rightarrow> Message list" where
  "Messages e = msgs e"

definition Done :: "Event \<Rightarrow> bufferPool \<Rightarrow> bufferPool" where
  "Done e p = (case buffer e of None \<Rightarrow> p | Some b \<Rightarrow> Put p b)"

section \<open>The consumer and its collaborators\<close>

text \<open>
  The socket, the netlink connection, the circuit breaker, the output channels and the
  logger are collaborators of the consumer. Every call the consumer makes on them is
  recorded, in order, in the field \<open>calls\<close>; what they answer is an input.
\<close>

type_synonym chan = nat

datatype call =
    SocketReceive
  | SocketClose
  | SocketSetBPF
  | NewSocket
  | NewConn
  | SetSocketBufferSize
  | GetSocketBufferSize
  | GenerateBPFSampler float64
  | ConnJoinGroup
  | ConnLeaveGroup
  | ConnSend Message
  | Validate
  | BreakerTick nat
  | BreakerIsOpen
  | BreakerReset
  | Output chan Event
  | CloseOutput chan
  | LogDebugf
  | LogInfof
  | LogWarnf
  | LogErrorf

text \<open>
  The fields of \<^verbatim>\<open>Consumer\<close> that hold data. A socket is identified by its rank among the
  sockets created so far, and a connection by the socket it wraps; \<open>None\<close> is \<^verbatim>\<open>nil\<close>.
\<close>

record Consumer =
  conn :: "nat option"
  socket :: "nat option"
  pool :: bufferPool
  samplingRate :: float64

record world = Consumer +
  calls :: "call list"
  sockets :: nat

definition called :: "world \<Rightarrow> call list \<Rightarrow> world" where
  "called w cs = w\<lparr>calls := calls w @ cs\<rparr>"

text \<open>
  What the collaborators answer while a socket is built: the error of \<^verbatim>\<open>NewSocket\<close>, of
  \<^verbatim>\<open>setSocketBufferSize\<close>, of \<^verbatim>\<open>getSocketBufferSize\<close> and of \<^verbatim>\<open>SetBPF\<close>, if any.
\<close>

record build_env =
  newSocketErr :: "string option"
  setBufferSizeErr :: "string option"
  getBufferSizeErr :: "string option"
  setBPFErr :: "string option"

text \<open>
  What they answer during one iteration of the receive loop: the result of
  \<^verbatim>\<open>Socket.Receive\<close>, what \<^verbatim>\<open>IsOpen\<close> reports if it is asked, the error of \<^verbatim>\<open>LeaveGroup\<close>,
  and the answers for the socket that a throttle builds.
\<close>

record step_env = build_env +
  recvMsgs :: "Message list"
  recvErr :: "string option"
  breakerOpen :: bool
  leaveGroupErr :: "string option"

section \<open>initNetlinkSocket and throttle\<close>

text \<open>
  \<^verbatim>\<open>c.socket, err = NewSocket(c.pool)\<close> assigns both results, so a failed \<^verbatim>\<open>NewSocket\<close>
  leaves \<^verbatim>\<open>c.socket\<close> nil.
\<close>

definition initNetlinkSocket ::
  "world \<Rightarrow> 'a build_env_scheme \<Rightarrow> float64 \<Rightarrow> error option \<times> world" where
  "initNetlinkSocket w env rate =
     (if fle rate minSamplingThreshold then (Some errMaxSamplingAttempts, w)
      else (case newSocketErr env of
          Some e \<Rightarrow> (Some (ErrOther e), (called w [NewSocket])\<lparr>socket := None\<rparr>)
        | None \<Rightarrow>
           (let w1 = (called w [NewSocket, NewConn])
                       \<lparr>socket := Some (sockets w), conn := Some (sockets w),
                        sockets := Suc (sockets w)\<rparr>;
                w2 = called w1 (SetSocketBufferSize #
                       (if setBufferSizeErr env \<noteq> None then [LogErrorf] else []));
                w3 = called w2 (GetSocketBufferSize #
                       (if getBufferSizeErr env = None then [LogDebugf] else []));
                w4 = w3\<lparr>samplingRate := rate\<rparr>
            in if fle float_one (samplingRate w4) then (None, w4)
               else (let w5 = called w4
                                [LogInfof, GenerateBPFSampler (samplingRate w4), SocketSetBPF]
                     in case setBPFErr env of
                          Some e \<Rightarrow> (Some (ErrAttachBPF (ErrOther e)), w5)
                        | None \<Rightarrow> (None, w5)))))"

definition throttle :: "world \<Rightarrow> step_env \<Rightarrow> error option \<times> world" where
  "throttle w env =
     (let w1 = called w (ConnLeaveGroup #
                 (if leaveGroupErr env \<noteq> None then [LogErrorf] else []));
          w2 = called w1 [SocketClose]
      in case initNetlinkSocket w2 env (fmul (samplingRate w2) throttlingFactor) of
           (Some err, w3) \<Rightarrow> (Some err, called w3 [LogErrorf])
         | (None, w3) \<Rightarrow> (None, called w3 [BreakerReset, ConnJoinGroup]))"

section \<open>The receive loop\<close>

text \<open>\<^verbatim>\<open>strings.Contains\<close>.\<close>

fun Contains :: "string \<Rightarrow> string \<Rightarrow> bool" where
  "Contains [] substr = (substr = [])"
| "Contains (c # s) substr = (prefix substr (c # s) \<or> Contains s substr)"

definition socketError :: "string \<Rightarrow> error" where
  "socketError s =
     (if Contains s ''closed file'' then errEOF
      else if Contains s ''no buffer space'' then errENOBUF
      else ErrOther s)"

text \<open>
  Modelled from the spec: \<^verbatim>\<open>Socket.Receive\<close> (the socket is not among the sources). It
  returns a batch of messages or an error, and the buffer of the read is acquired from
  the buffer pool, which records it as the one currently lent.
\<close>

definition Socket_Receive ::
  "world \<Rightarrow> step_env \<Rightarrow> (Message list \<times> string option) \<times> world" where
  "Socket_Receive w env =
     ((recvMsgs env, recvErr env), (called w [SocketReceive])\<lparr>pool := snd (Get (pool w))\<rparr>)"

definition eventFor :: "world \<Rightarrow> Message list \<Rightarrow> Event" where
  "eventFor w ms = \<lparr>msgs = ms, buffer = inUse (pool w)\<rparr>"

text \<open>The first error that \<^verbatim>\<open>checkMessage\<close> finds in a batch, in the order of the range loop.\<close>

fun checkMessages :: "Message list \<Rightarrow> error option" where
  "checkMessages [] = None"
| "checkMessages (m # ms) =
     (case checkMessage m of Some e \<Rightarrow> Some e | None \<Rightarrow> checkMessages ms)"

datatype ctl = Return | Continue

text \<open>The end of an iteration: the done marker, the send, and the exit of a finished dump.\<close>

definition emit :: "world \<Rightarrow> chan \<Rightarrow> Message list \<Rightarrow> bool \<Rightarrow> ctl \<times> world" where
  "emit w output ms dump =
     (let multiPartDone = (0 < length ms \<and> Type (Header (last ms)) = netlink_Done);
          ms' = (if multiPartDone then butlast ms else ms);
          w' = called w [Output output (eventFor w ms')]
      in if dump \<and> multiPartDone then (Return, w') else (Continue, w'))"

text \<open>The iteration from the circuit breaker on, for the batch \<open>ms\<close>.\<close>

definition process ::
  "world \<Rightarrow> chan \<Rightarrow> step_env \<Rightarrow> Message list \<Rightarrow> bool \<Rightarrow> ctl \<times> world" where
  "process w output env ms dump =
     (let w1 = (if \<not> dump then called w [BreakerTick (length ms), BreakerIsOpen] else w)
      in if \<not> dump \<and> breakerOpen env then
           (case throttle w1 env of
              (Some err, w2) \<Rightarrow> (Return, w2)
            | (None, w2) \<Rightarrow> (Continue, w2))
         else (case checkMessages ms of
                 Some err \<Rightarrow> (Continue, called w1 [LogDebugf])
               | None \<Rightarrow> emit w1 output ms dump))"

text \<open>One iteration of \<^verbatim>\<open>ReadLoop\<close>.\<close>

definition iteration :: "world \<Rightarrow> chan \<Rightarrow> step_env \<Rightarrow> bool \<Rightarrow> ctl \<times> world" where
  "iteration w output env dump =
     (case Socket_Receive (w\<lparr>pool := Reset (pool w)\<rparr>) env of
        ((ms, None), w1) \<Rightarrow> process w1 output env ms dump
      | ((ms, Some err), w1) \<Rightarrow>
          (if socketError err = errEOF then (Return, w1)
           else if socketError err = errENOBUF then
             (if dump then (Return, called w1 [LogWarnf])
              else (case throttle (called w1 [LogWarnf]) env of
                      (Some terr, w2) \<Rightarrow> (Return, w2)
                    | (None, w2) \<Rightarrow> (Continue, w2)))
           else process w1 output env ms dump))"

text \<open>
  The loop runs one iteration for each answer of the socket. \<^verbatim>\<open>Receive\<close> blocks while the
  socket has nothing to deliver: when the answers are used up the loop has not returned.
  The reader of the output channel is taken to drain it, so a send does not block.
\<close>

datatype outcome = Returned | Blocked

fun receive :: "world \<Rightarrow> chan \<Rightarrow> step_env list \<Rightarrow> bool \<Rightarrow> outcome \<times> world" where
  "receive w output [] dump =
     (Blocked, (called w [SocketReceive])\<lparr>pool := Reset (pool w)\<rparr>)"
| "receive w output (env # envs) dump =
     (case iteration w output env dump of
        (Return, w') \<Rightarrow> (Returned, w')
      | (Continue, w') \<Rightarrow> receive w' output envs dump)"

section \<open>The public operations\<close>

definition NewConsumer :: "'a build_env_scheme \<Rightarrow> error + world" where
  "NewConsumer env =
     (let c = \<lparr>conn = None, socket = None, pool = newBufferPool, samplingRate = F64 0 0,
               calls = [], sockets = 0\<rparr>
      in case initNetlinkSocket c env float_one of
           (Some err, w) \<Rightarrow> Inl err
         | (None, w) \<Rightarrow> Inr w)"

text \<open>
  \<^verbatim>\<open>Events\<close> and \<^verbatim>\<open>DumpTable\<close> make a channel, hand a task to the worker and return the
  channel. The functions below are the tasks, run by the worker on the channel \<open>output\<close>.
\<close>

definition Events :: "world \<Rightarrow> chan \<Rightarrow> step_env list \<Rightarrow> outcome \<times> world" where
  "Events w output envs = receive (called w [ConnJoinGroup]) output envs False"

text \<open>
  The dump request: flags \<^verbatim>\<open>Request | Dump\<close>, type \<^verbatim>\<open>(NFNL_SUBSYS_CTNETLINK << 8) | 1\<close>. What
  \<^verbatim>\<open>Send\<close> and \<^verbatim>\<open>netlink.Validate\<close> answer is an input.
\<close>

definition dumpRequest :: "byte \<Rightarrow> Message" where
  "dumpRequest family =
     \<lparr>Header = \<lparr>Length = 0, Type = push_bit 8 1 OR 1, Flags = 1 OR 768,
                Sequence = 0, PID = 0\<rparr>,
      Data = [family, 0, 0, 0]\<rparr>"

record dump_env =
  sendErr :: "string option"
  validateErr :: "string option"

definition DumpTable ::
  "world \<Rightarrow> chan \<Rightarrow> byte \<Rightarrow> dump_env \<Rightarrow> step_env list \<Rightarrow> outcome \<times> world" where
  "DumpTable w output family denv envs =
     (let w1 = called w [ConnSend (dumpRequest family)]
      in case sendErr denv of
           Some err \<Rightarrow> (Returned, called w1 [LogErrorf, CloseOutput output])
         | None \<Rightarrow>
            (let w2 = called w1 [Validate]
             in case validateErr denv of
                  Some err \<Rightarrow> (Returned, called w2 [LogErrorf, CloseOutput output])
                | None \<Rightarrow>
                   (case receive w2 output envs True of
                      (Returned, w3) \<Rightarrow> (Returned, called w3 [CloseOutput output])
                    | (Blocked, w3) \<Rightarrow> (Blocked, w3))))"

section \<open>Observations and scenarios\<close>

text \<open>The calls made between the world \<open>w\<close> and a later world \<open>w'\<close>.\<close>

definition newCalls :: "world \<Rightarrow> world \<Rightarrow> call list" where
  "newCalls w w' = drop (length (calls w)) (calls w')"

text \<open>The world in which an iteration continues once \<^verbatim>\<open>Receive\<close> has returned.\<close>

definition received :: "world \<Rightarrow> step_env \<Rightarrow> world" where
  "received w env = snd (Socket_Receive (w\<lparr>pool := Reset (pool w)\<rparr>) env)"

text \<open>The calls that building a socket can make, and those that a throttle can make.\<close>

definition buildCalls :: "call set" where
  "buildCalls =
     {NewSocket, NewConn, SetSocketBufferSize, GetSocketBufferSize, SocketSetBPF,
      LogErrorf, LogDebugf, LogInfof} \<union> range GenerateBPFSampler"

definition throttleCalls :: "call set" where
  "throttleCalls = buildCalls \<union> {ConnLeaveGroup, SocketClose, BreakerReset, ConnJoinGroup}"

text \<open>
  An upper bound of the calls that follow \<^verbatim>\<open>Receive\<close> in one iteration: the breaker and the throttle only when
  the loop streams, and a send only of a batch that passed \<^verbatim>\<open>checkMessage\<close>, without its
  last message if that is a done marker.
\<close>

definition iterationCalls :: "chan \<Rightarrow> step_env \<Rightarrow> bool \<Rightarrow> call set" where
  "iterationCalls output env dump =
     {LogWarnf, LogDebugf}
     \<union> (if dump then {}
        else {BreakerIsOpen, BreakerTick (length (recvMsgs env))} \<union> throttleCalls)
     \<union> (if checkMessages (recvMsgs env) = None
        then {Output output ev | ev.
                msgs ev = (if 0 < length (recvMsgs env)
                              \<and> Type (Header (last (recvMsgs env))) = netlink_Done
                           then butlast (recvMsgs env) else recvMsgs env)}
        else {})"

text \<open>\<open>k\<close> successive invocations of \<^verbatim>\<open>throttle\<close>, stopping at the first that fails.\<close>

fun throttleTimes :: "nat \<Rightarrow> world \<Rightarrow> step_env \<Rightarrow> error option \<times> world" where
  "throttleTimes 0 w env = (None, w)"
| "throttleTimes (Suc k) w env =
     (case throttleTimes k w env of
        (None, w') \<Rightarrow> throttle w' env
      | (Some err, w') \<Rightarrow> (Some err, w'))"

text \<open>
  Answers of the collaborators used as concrete inputs: an iteration in which the socket
  delivers the batch \<open>ms\<close> and nothing fails, and one in which \<^verbatim>\<open>Receive\<close> fails with the
  message \<open>err\<close>.
\<close>

definition delivers :: "Message list \<Rightarrow> step_env" where
  "delivers ms =
     \<lparr>newSocketErr = None, setBufferSizeErr = None, getBufferSizeErr = None,
      setBPFErr = None, recvMsgs = ms, recvErr = None, breakerOpen = False,
      leaveGroupErr = None\<rparr>"

definition fails :: "string \<Rightarrow> step_env" where
  "fails err = (delivers [])\<lparr>recvErr := Some err\<rparr>"

text \<open>A conntrack message, an error message with code \<open>-2\<close>, and a done marker.\<close>

definition dataMsg :: Message where
  "dataMsg =
     \<lparr>Header = \<lparr>Length = 20, Type = 256, Flags = 0, Sequence = 0, PID = 0\<rparr>,
      Data = [2, 0, 0, 0]\<rparr>"

definition errorMsg :: Message where
  "errorMsg =
     \<lparr>Header = \<lparr>Length = 20, Type = 2, Flags = 0, Sequence = 0, PID = 0\<rparr>,
      Data = [254, 255, 255, 255]\<rparr>"

definition doneMsg :: Message where
  "doneMsg =
     \<lparr>Header = \<lparr>Length = 20, Type = 3, Flags = 2, Sequence = 0, PID = 0\<rparr>,
      Data = [0, 0, 0, 0]\<rparr>"

text \<open>The consumer that \<^verbatim>\<open>NewConsumer\<close> returns when nothing fails.\<close>

definition freshConsumer :: world where
  "freshConsumer =
     \<lparr>conn = Some 0, socket = Some 0, pool = newBufferPool, samplingRate = float_one,
      calls = [NewSocket, NewConn, SetSocketBufferSize, GetSocketBufferSize, LogDebugf],
      sockets = 1\<rparr>"

section \<open>Auxiliary facts\<close>

lemma freshConsumer_new: "NewConsumer (delivers []) = Inr freshConsumer"
  by (simp add: NewConsumer_def initNetlinkSocket_def delivers_def freshConsumer_def
      called_def float_one_def minSamplingThreshold_def Let_def)

lemma Contains_sublist: "Contains s substr \<longleftrightarrow> sublist substr s"
  by (induction s) (auto simp: sublist_Cons_right)

lemma newCallsI: "calls w' = calls w @ xs \<Longrightarrow> newCalls w w' = xs"
  by (simp add: newCalls_def)

lemma newCalls_same [simp]: "newCalls w w = []"
  by (simp add: newCalls_def)

lemma calls_called [simp]: "calls (called w cs) = calls w @ cs"
  by (simp add: called_def)

lemma called_called [simp]: "called (called w a) b = called w (a @ b)"
  by (simp add: called_def)

lemma called_fields [simp]:
  "samplingRate (called w cs) = samplingRate w"
  "socket (called w cs) = socket w"
  "conn (called w cs) = conn w"
  "pool (called w cs) = pool w"
  "sockets (called w cs) = sockets w"
  by (simp_all add: called_def)

subsection \<open>The arithmetic of the sampling rates\<close>

text \<open>
  The comparison is the one of the numbers denoted. On normal doubles \<open>fmul\<close> returns a
  normal double that is within half a unit in the last place of the exact product, which
  is what IEEE 754 prescribes for the multiplication; the constants are the doubles
  nearest to \<^verbatim>\<open>1.0\<close>, \<^verbatim>\<open>0.8\<close> and \<^verbatim>\<open>0.2\<close>.
\<close>

lemma valof_powi: "valof (F64 m e) = of_nat m * 2 powi e"
  by (simp add: power_int_def field_simps)

lemma valof_shift:
  assumes "e \<le> e1"
  shows "valof (F64 m e1) = of_nat (m * 2 ^ nat (e1 - e)) * 2 powi e"
proof -
  have "(2::rat) powi e1 = 2 powi (e1 - e) * 2 powi e"
    by (simp flip: power_int_add)
  also have "(2::rat) powi (e1 - e) = 2 ^ nat (e1 - e)"
    using assms by (simp add: power_int_def)
  finally show ?thesis
    unfolding valof_powi by simp
qed

lemma fle_valof: "fle a b \<longleftrightarrow> valof a \<le> valof b"
proof (cases a; cases b)
  fix m1 e1 m2 e2
  assume a: "a = F64 m1 e1" and b: "b = F64 m2 e2"
  let ?e = "min e1 e2"
  have pos: "(0::rat) < 2 powi ?e"
    by simp
  have "valof a \<le> valof b \<longleftrightarrow>
      (of_nat (m1 * 2 ^ nat (e1 - ?e)) :: rat) * 2 powi ?e
        \<le> of_nat (m2 * 2 ^ nat (e2 - ?e)) * 2 powi ?e"
    unfolding a b using valof_shift [of ?e e1 m1] valof_shift [of ?e e2 m2] by simp
  also have "\<dots> \<longleftrightarrow> (of_nat (m1 * 2 ^ nat (e1 - ?e)) :: rat) \<le> of_nat (m2 * 2 ^ nat (e2 - ?e))"
    using pos by (rule mult_le_cancel_right_pos)
  also have "\<dots> \<longleftrightarrow> m1 * 2 ^ nat (e1 - ?e) \<le> m2 * 2 ^ nat (e2 - ?e)"
    by (rule of_nat_le_iff)
  finally show ?thesis
    by (simp add: a b Let_def)
qed

lemma roundEven_nearest:
  assumes "0 < k"
  shows "2 * \<bar>int (roundEven p k) * 2 ^ k - int p\<bar> \<le> 2 ^ k"
proof -
  define q r h where "q = p div 2 ^ k" and "r = p mod 2 ^ k" and "h = (2::nat) ^ (k - 1)"
  define Q R H K :: int where "Q = int q" and "R = int r" and "H = int h" and "K = 2 ^ k"
  have "2 * h = 2 ^ k"
    using assms by (cases k) (simp_all add: h_def)
  then have hk: "2 * H = K"
    unfolding H_def K_def by (metis of_nat_mult of_nat_numeral of_nat_power)
  have "p = q * 2 ^ k + r"
    unfolding q_def r_def by (rule div_mult_mod_eq [symmetric])
  then have p: "int p = Q * K + R"
    unfolding Q_def R_def K_def
    by (metis of_nat_add of_nat_mult of_nat_numeral of_nat_power)
  have "r < 2 ^ k"
    by (simp add: r_def)
  then have r: "R < K"
    unfolding R_def K_def by (metis of_nat_less_iff of_nat_numeral of_nat_power)
  have r0: "0 \<le> R"
    by (simp add: R_def)
  show ?thesis
  proof (cases "h < r \<or> (r = h \<and> odd q)")
    case True
    then have "roundEven p k = q + 1"
      using assms by (simp add: roundEven_def Let_def q_def r_def h_def)
    then have "int (roundEven p k) * 2 ^ k - int p = K - R"
      using p by (simp add: algebra_simps Q_def K_def)
    then have "\<bar>int (roundEven p k) * 2 ^ k - int p\<bar> = K - R"
      using r by simp
    moreover have "H \<le> R"
      using True by (auto simp: H_def R_def)
    ultimately have "2 * \<bar>int (roundEven p k) * 2 ^ k - int p\<bar> \<le> K"
      using hk by simp
    then show ?thesis
      by (simp add: K_def)
  next
    case False
    then have "roundEven p k = q"
      using assms by (auto simp add: roundEven_def Let_def q_def r_def h_def)
    then have "int (roundEven p k) * 2 ^ k - int p = - R"
      using p by (simp add: algebra_simps Q_def K_def)
    then have "\<bar>int (roundEven p k) * 2 ^ k - int p\<bar> = R"
      using r0 by simp
    moreover have "R \<le> H"
      using False by (auto simp: H_def R_def)
    ultimately have "2 * \<bar>int (roundEven p k) * 2 ^ k - int p\<bar> \<le> K"
      using hk by simp
    then show ?thesis
      by (simp add: K_def)
  qed
qed


lemma roundEven_range:
  assumes "0 < k" and "2 ^ (52 + k) \<le> p" and "p < 2 ^ (53 + k)"
  shows "2 ^ 52 \<le> roundEven p k \<and> roundEven p k \<le> 2 ^ 53"
proof -
  have lo: "2 ^ 52 \<le> p div 2 ^ k"
  proof -
    have "(2::nat) ^ 52 * 2 ^ k \<le> p"
      using assms(2) by (simp add: power_add)
    then show ?thesis
      by (simp add: less_eq_div_iff_mult_less_eq)
  qed
  have hi: "p div 2 ^ k < 2 ^ 53"
  proof -
    have "p < (2::nat) ^ 53 * 2 ^ k"
      using assms(3) by (simp add: power_add)
    then show ?thesis
      by (simp add: less_mult_imp_div_less)
  qed
  show ?thesis
    using lo hi assms(1) by (auto simp: roundEven_def Let_def)
qed

lemma valof_round53:
  "valof (round53 p e) =
     of_nat (roundEven p (if p < 2 ^ 105 then 52 else 53))
       * 2 powi (e + int (if p < 2 ^ 105 then 52 else 53))"
  unfolding round53_def Let_def
  by (auto simp: valof_powi power_int_add simp del: valof.simps)

lemma fmul_correctly_rounded:
  assumes "2 ^ 52 \<le> m1" "m1 < 2 ^ 53" "2 ^ 52 \<le> m2" "m2 < 2 ^ 53"
    and "fmul (F64 m1 e1) (F64 m2 e2) = F64 m e"
  shows "2 ^ 52 \<le> m \<and> m < 2 ^ 53
       \<and> 2 * \<bar>valof (F64 m e) - valof (F64 m1 e1) * valof (F64 m2 e2)\<bar> \<le> 2 powi e"
proof -
  define p where "p = m1 * m2"
  define k :: nat where "k = (if p < 2 ^ 105 then 52 else 53)"
  define E where "E = e1 + e2"
  have k0: "0 < k"
    by (simp add: k_def)
  have "(2::nat) ^ 52 * 2 ^ 52 \<le> m1 * m2"
    using assms(1,3) by (rule mult_mono) simp_all
  then have plo: "2 ^ 104 \<le> p"
    by (simp add: p_def)
  have "m1 * m2 < (2::nat) ^ 53 * 2 ^ 53"
    using assms(2,4) by (rule mult_strict_mono) simp_all
  then have phi: "p < 2 ^ 106"
    by (simp add: p_def)
  have range: "2 ^ (52 + k) \<le> p \<and> p < 2 ^ (53 + k)"
    using plo phi by (auto simp: k_def)
  then have mr: "2 ^ 52 \<le> roundEven p k" "roundEven p k \<le> 2 ^ 53"
    using roundEven_range [OF k0, of p] by simp_all
  have res: "F64 m e = round53 p E"
    using assms(5) by (simp add: p_def E_def)
  have m: "2 ^ 52 \<le> m \<and> m < 2 ^ 53" and e: "E + int k \<le> e"
    using res mr unfolding round53_def Let_def k_def [symmetric]
    by (auto split: if_splits)
  have v: "valof (F64 m e) = of_nat (roundEven p k) * 2 powi (E + int k)"
    unfolding res k_def by (rule valof_round53)
  have x: "valof (F64 m1 e1) * valof (F64 m2 e2) = of_nat p * 2 powi E"
    by (simp add: valof_powi p_def E_def power_int_add del: valof.simps)
  have "valof (F64 m e) - valof (F64 m1 e1) * valof (F64 m2 e2) =
      of_int (int (roundEven p k) * 2 ^ k - int p) * 2 powi E"
    unfolding v x by (simp add: power_int_add algebra_simps)
  then have "2 * \<bar>valof (F64 m e) - valof (F64 m1 e1) * valof (F64 m2 e2)\<bar> =
      of_int (2 * \<bar>int (roundEven p k) * 2 ^ k - int p\<bar>) * 2 powi E"
    by (simp add: abs_mult)
  also have "\<dots> \<le> of_int (2 ^ k) * 2 powi E"
    using roundEven_nearest [OF k0, of p]
    by (intro mult_right_mono) (simp_all only: of_int_le_iff zero_le_power_int zero_le_numeral)
  also have "\<dots> = 2 powi (E + int k)"
    by (simp add: power_int_add)
  also have "\<dots> \<le> 2 powi e"
    using e by (intro power_int_increasing) simp_all
  finally show ?thesis
    using m by simp
qed

lemma float_constants:
  "valof float_one = 1"
  "2 * \<bar>valof throttlingFactor - 8 / 10\<bar> \<le> 1 / 2 ^ 53"
  "2 * \<bar>valof minSamplingThreshold - 2 / 10\<bar> \<le> 1 / 2 ^ 55"
  by (simp_all add: float_one_def throttlingFactor_def minSamplingThreshold_def)

subsection \<open>Building a socket\<close>

lemma initNetlinkSocket_calls:
  "\<exists>build. calls (snd (initNetlinkSocket w env rate)) = calls w @ build
     \<and> set build \<subseteq> buildCalls"
  by (auto simp: initNetlinkSocket_def buildCalls_def Let_def called_def split: option.splits)

lemma initNetlinkSocket_underflow:
  "fle rate minSamplingThreshold \<Longrightarrow>
     initNetlinkSocket w env rate = (Some errMaxSamplingAttempts, w)"
  by (simp add: initNetlinkSocket_def)

lemma initNetlinkSocket_ok:
  "initNetlinkSocket w env rate = (None, w') \<Longrightarrow>
     samplingRate w' = rate \<and> socket w' = Some (sockets w) \<and> conn w' = Some (sockets w)
     \<and> sockets w' = Suc (sockets w) \<and> pool w' = pool w
     \<and> \<not> fle rate minSamplingThreshold"
  by (auto simp: initNetlinkSocket_def Let_def called_def split: option.splits if_splits)

subsection \<open>One throttle\<close>

lemma throttle_shape:
  assumes "throttle w env = (r, w')"
  shows "\<exists>build w3.
      initNetlinkSocket
        (called w (ConnLeaveGroup # (if leaveGroupErr env \<noteq> None then [LogErrorf] else [])
                   @ [SocketClose]))
        env (fmul (samplingRate w) throttlingFactor) = (r, w3)
      \<and> calls w3 = calls w @ ConnLeaveGroup #
           (if leaveGroupErr env \<noteq> None then [LogErrorf] else []) @ SocketClose # build
      \<and> set build \<subseteq> buildCalls
      \<and> w' = called w3 (if r = None then [BreakerReset, ConnJoinGroup] else [LogErrorf])"
proof -
  let ?pre = "ConnLeaveGroup # (if leaveGroupErr env \<noteq> None then [LogErrorf] else [])
                @ [SocketClose]"
  let ?rate = "fmul (samplingRate w) throttlingFactor"
  obtain r3 w3 where init: "initNetlinkSocket (called w ?pre) env ?rate = (r3, w3)"
    by (cases "initNetlinkSocket (called w ?pre) env ?rate")
  from assms init have r: "r = r3"
    and w': "w' = called w3 (if r3 = None then [BreakerReset, ConnJoinGroup] else [LogErrorf])"
    by (auto simp: throttle_def Let_def split: option.splits)
  obtain build where "calls w3 = calls (called w ?pre) @ build" and "set build \<subseteq> buildCalls"
    using initNetlinkSocket_calls [of "called w ?pre" env ?rate] init by auto
  then show ?thesis
    using init r w' by auto
qed

lemma throttle_calls:
  "\<exists>cs. calls (snd (throttle w env)) = calls w @ cs \<and> set cs \<subseteq> throttleCalls"
proof -
  obtain r w' where t: "throttle w env = (r, w')"
    by (cases "throttle w env")
  from throttle_shape [OF t] obtain build w3 where
    c3: "calls w3 = calls w @ ConnLeaveGroup #
           (if leaveGroupErr env \<noteq> None then [LogErrorf] else []) @ SocketClose # build"
    and b: "set build \<subseteq> buildCalls"
    and w': "w' = called w3 (if r = None then [BreakerReset, ConnJoinGroup] else [LogErrorf])"
    by blast
  have "LogErrorf \<in> buildCalls"
    by (simp add: buildCalls_def)
  with b show ?thesis
    by (auto simp: t w' c3 throttleCalls_def)
qed

lemma throttle_pool: "pool (snd (throttle w env)) = pool w"
  by (auto simp: throttle_def initNetlinkSocket_def Let_def called_def
      split: option.splits prod.splits)

lemma throttle_ok:
  assumes "newSocketErr env = None" "setBPFErr env = None"
    and "\<not> fle (fmul (samplingRate w) throttlingFactor) minSamplingThreshold"
  shows "fst (throttle w env) = None
       \<and> samplingRate (snd (throttle w env)) = fmul (samplingRate w) throttlingFactor
       \<and> sockets (snd (throttle w env)) = Suc (sockets w)
       \<and> socket (snd (throttle w env)) = Some (sockets w)"
  using assms
  by (simp add: throttle_def initNetlinkSocket_def Let_def split: prod.splits)

lemma throttle_underflow:
  assumes "fle (fmul (samplingRate w) throttlingFactor) minSamplingThreshold"
  shows "fst (throttle w env) = Some errMaxSamplingAttempts
       \<and> samplingRate (snd (throttle w env)) = samplingRate w
       \<and> sockets (snd (throttle w env)) = sockets w
       \<and> socket (snd (throttle w env)) = socket w
       \<and> NewSocket \<notin> set (newCalls w (snd (throttle w env)))"
  using assms
  by (auto simp: throttle_def initNetlinkSocket_def Let_def newCalls_def called_def)

lemmas model_defs =
  throttle_def initNetlinkSocket_def Let_def delivers_def fails_def freshConsumer_def
  called_def newCalls_def float_one_def throttlingFactor_def minSamplingThreshold_def
  round53_def roundEven_def iteration_def process_def emit_def Socket_Receive_def
  Reset_def Get_def Pool_Get_def Put_def Done_def newBufferPool_def eventFor_def
  checkMessage_def netlink_Error_def netlink_Done_def socketError_def
  dataMsg_def doneMsg_def errorMsg_def Events_def DumpTable_def received_def

subsection \<open>Successive throttles\<close>

lemma throttleTimes_step:
  assumes "fst (throttleTimes k w env) = None"
    and "samplingRate (snd (throttleTimes k w env)) = r"
    and "fmul r throttlingFactor = r'"
    and "\<not> fle r' minSamplingThreshold"
    and "newSocketErr env = None" "setBPFErr env = None"
  shows "fst (throttleTimes (Suc k) w env) = None
       \<and> samplingRate (snd (throttleTimes (Suc k) w env)) = r'
       \<and> sockets (snd (throttleTimes (Suc k) w env)) = Suc (sockets (snd (throttleTimes k w env)))"
proof -
  obtain w' where k: "throttleTimes k w env = (None, w')"
    using assms(1) by (cases "throttleTimes k w env") auto
  with assms have "\<not> fle (fmul (samplingRate w') throttlingFactor) minSamplingThreshold"
    by simp
  from throttle_ok [OF assms(5,6) this] assms k show ?thesis
    by simp
qed

lemma fmul_chain:
  "fmul float_one throttlingFactor = F64 7205759403792794 (- 53)"
  "fmul (F64 7205759403792794 (- 53)) throttlingFactor = F64 5764607523034236 (- 53)"
  "fmul (F64 5764607523034236 (- 53)) throttlingFactor = F64 4611686018427389 (- 53)"
  "fmul (F64 4611686018427389 (- 53)) throttlingFactor = F64 7378697629483823 (- 54)"
  "fmul (F64 7378697629483823 (- 54)) throttlingFactor = F64 5902958103587059 (- 54)"
  "fmul (F64 5902958103587059 (- 54)) throttlingFactor = F64 4722366482869647 (- 54)"
  "fmul (F64 4722366482869647 (- 54)) throttlingFactor = F64 7555786372591436 (- 55)"
  "fmul (F64 7555786372591436 (- 55)) throttlingFactor = F64 6044629098073149 (- 55)"
  by (simp_all add: float_one_def throttlingFactor_def round53_def roundEven_def Let_def)

lemma above_threshold:
  "\<not> fle (F64 7205759403792794 (- 53)) minSamplingThreshold"
  "\<not> fle (F64 5764607523034236 (- 53)) minSamplingThreshold"
  "\<not> fle (F64 4611686018427389 (- 53)) minSamplingThreshold"
  "\<not> fle (F64 7378697629483823 (- 54)) minSamplingThreshold"
  "\<not> fle (F64 5902958103587059 (- 54)) minSamplingThreshold"
  "\<not> fle (F64 4722366482869647 (- 54)) minSamplingThreshold"
  "\<not> fle (F64 7555786372591436 (- 55)) minSamplingThreshold"
  "fle (F64 6044629098073149 (- 55)) minSamplingThreshold"
  by (simp_all add: minSamplingThreshold_def Let_def)

lemma throttleTimes_next:
  assumes "k' = Suc k"
    and "fst (throttleTimes k w env) = None
       \<and> samplingRate (snd (throttleTimes k w env)) = r
       \<and> sockets (snd (throttleTimes k w env)) = sockets w + k"
    and "fmul r throttlingFactor = r'"
    and "\<not> fle r' minSamplingThreshold"
    and "newSocketErr env = None" "setBPFErr env = None"
  shows "fst (throttleTimes k' w env) = None
       \<and> samplingRate (snd (throttleTimes k' w env)) = r'
       \<and> sockets (snd (throttleTimes k' w env)) = sockets w + k'"
  using throttleTimes_step [of k w env r r'] assms by (simp del: throttleTimes.simps)

section \<open>The throttle protocol\<close>

text \<open>
  Claim C8. A throttle leaves the multicast group, closes the socket and then attempts to
  build a socket at the current sampling rate times \<^verbatim>\<open>0.8\<close>, in this order (a failed leave
  is only logged). If the build succeeds, the circuit breaker is reset, the group is joined
  again and no error is returned, in this order and after the calls of the build. If the
  build fails, which it does without any call when the new rate is at or below the
  threshold \<^verbatim>\<open>0.2\<close>, its error is returned and the breaker is not reset and the group not
  joined.
\<close>

theorem throttle_protocol:
  assumes "throttle w env = (r, w')"
  shows "\<exists>build w3.
      initNetlinkSocket
        (called w (ConnLeaveGroup # (if leaveGroupErr env \<noteq> None then [LogErrorf] else [])
                   @ [SocketClose]))
        env (fmul (samplingRate w) throttlingFactor) = (r, w3)
      \<and> build = newCalls
           (called w (ConnLeaveGroup # (if leaveGroupErr env \<noteq> None then [LogErrorf] else [])
                      @ [SocketClose])) w3
      \<and> set build \<subseteq> buildCalls
      \<and> newCalls w w' =
           ConnLeaveGroup # (if leaveGroupErr env \<noteq> None then [LogErrorf] else []) @
           SocketClose # build @
           (if r = None then [BreakerReset, ConnJoinGroup] else [LogErrorf])
      \<and> (fle (fmul (samplingRate w) throttlingFactor) minSamplingThreshold \<longrightarrow>
           r = Some errMaxSamplingAttempts \<and> build = [])
      \<and> (r = None \<longrightarrow> samplingRate w' = fmul (samplingRate w) throttlingFactor
            \<and> socket w' = Some (sockets w) \<and> sockets w' = Suc (sockets w))
      \<and> (r \<noteq> None \<longrightarrow>
            BreakerReset \<notin> set (newCalls w w') \<and> ConnJoinGroup \<notin> set (newCalls w w'))"
proof -
  let ?pre = "ConnLeaveGroup # (if leaveGroupErr env \<noteq> None then [LogErrorf] else [])
                @ [SocketClose]"
  let ?rate = "fmul (samplingRate w) throttlingFactor"
  from throttle_shape [OF assms] obtain build w3 where
    init: "initNetlinkSocket (called w ?pre) env ?rate = (r, w3)"
    and c3: "calls w3 = calls w @ ConnLeaveGroup #
           (if leaveGroupErr env \<noteq> None then [LogErrorf] else []) @ SocketClose # build"
    and sub: "set build \<subseteq> buildCalls"
    and w': "w' = called w3 (if r = None then [BreakerReset, ConnJoinGroup] else [LogErrorf])"
    by blast
  have b: "newCalls (called w ?pre) w3 = build"
    by (rule newCallsI) (simp add: c3)
  have nc: "newCalls w w' = ConnLeaveGroup #
      (if leaveGroupErr env \<noteq> None then [LogErrorf] else []) @ SocketClose # build @
      (if r = None then [BreakerReset, ConnJoinGroup] else [LogErrorf])"
    by (rule newCallsI) (simp add: w' c3)
  have under: "fle ?rate minSamplingThreshold \<longrightarrow> r = Some errMaxSamplingAttempts \<and> build = []"
    using init b by (auto simp: initNetlinkSocket_underflow)
  have ok: "r = None \<longrightarrow> samplingRate w' = ?rate \<and> socket w' = Some (sockets w)
      \<and> sockets w' = Suc (sockets w)"
    using initNetlinkSocket_ok [of "called w ?pre" env ?rate w3] init
    by (auto simp: w')
  have "BreakerReset \<notin> buildCalls" "ConnJoinGroup \<notin> buildCalls"
    by (auto simp: buildCalls_def)
  with sub have fail: "r \<noteq> None \<longrightarrow>
      BreakerReset \<notin> set (newCalls w w') \<and> ConnJoinGroup \<notin> set (newCalls w w')"
    by (auto simp: nc)
  show ?thesis
    using init b sub nc under ok fail by auto
qed

theorem throttle_protocol_witness:
  "fst (throttle freshConsumer (delivers [])) = None
   \<and> newCalls freshConsumer (snd (throttle freshConsumer (delivers []))) =
       [ConnLeaveGroup, SocketClose, NewSocket, NewConn, SetSocketBufferSize,
        GetSocketBufferSize, LogDebugf, LogInfof,
        GenerateBPFSampler (F64 7205759403792794 (- 53)), SocketSetBPF,
        BreakerReset, ConnJoinGroup]
   \<and> samplingRate (snd (throttle freshConsumer (delivers []))) = F64 7205759403792794 (- 53)
   \<and> fst (throttle (freshConsumer\<lparr>samplingRate := F64 7555786372591436 (- 55)\<rparr>)
            (delivers [])) = Some errMaxSamplingAttempts
   \<and> newCalls (freshConsumer\<lparr>samplingRate := F64 7555786372591436 (- 55)\<rparr>)
        (snd (throttle (freshConsumer\<lparr>samplingRate := F64 7555786372591436 (- 55)\<rparr>)
               (delivers []))) =
       [ConnLeaveGroup, SocketClose, LogErrorf]"
proof -
  let ?w = "freshConsumer\<lparr>samplingRate := F64 7555786372591436 (- 55)\<rparr>"
  have a: "throttle freshConsumer (delivers []) =
      (fst (throttle freshConsumer (delivers [])), snd (throttle freshConsumer (delivers [])))"
    by simp
  have b: "throttle ?w (delivers []) =
      (fst (throttle ?w (delivers [])), snd (throttle ?w (delivers [])))"
    by simp
  have u: "fle (fmul (samplingRate ?w) throttlingFactor) minSamplingThreshold"
    by (simp add: model_defs)
  have n: "fst (throttle freshConsumer (delivers [])) = None"
    by (simp add: model_defs)
  have l: "leaveGroupErr (delivers []) = None"
    by (simp add: delivers_def)
  from throttle_protocol [OF a] throttle_protocol [OF b] u n l
  show ?thesis
    by (auto simp: model_defs)
qed

section \<open>The sampling rates of successive throttles\<close>

text \<open>
  Claim C1. Starting from the sampling rate \<^verbatim>\<open>1.0\<close>, with every socket build succeeding
  unless the rate forbids it, seven successive throttles succeed. The rates visited are
  the eight doubles listed, each within \<^verbatim>\<open>1e-15\<close> of \<^verbatim>\<open>1.0, 0.8, 0.64, 0.512, 0.4096,
  0.32768, 0.262144, 0.2097152\<close>. The eighth throttle computes a rate within \<^verbatim>\<open>1e-15\<close> of
  \<^verbatim>\<open>0.16777216\<close>, which is at or below the threshold, so that it fails with the
  max-sampling-attempts error; it creates no socket, and the rate stays the last one
  visited.
\<close>

theorem throttle_rate_sequence:
  assumes "samplingRate w = float_one" and "newSocketErr env = None" and "setBPFErr env = None"
  shows
    "map (\<lambda>k. fst (throttleTimes k w env)) [0, 1, 2, 3, 4, 5, 6, 7] = replicate 8 None
     \<and> map (\<lambda>k. samplingRate (snd (throttleTimes k w env))) [0, 1, 2, 3, 4, 5, 6, 7] =
         [F64 4503599627370496 (- 52), F64 7205759403792794 (- 53),
          F64 5764607523034236 (- 53), F64 4611686018427389 (- 53),
          F64 7378697629483823 (- 54), F64 5902958103587059 (- 54),
          F64 4722366482869647 (- 54), F64 7555786372591436 (- 55)]
     \<and> list_all2 (\<lambda>r d. \<bar>valof r - d\<bar> < 1 / 10 ^ 15)
         (map (\<lambda>k. samplingRate (snd (throttleTimes k w env))) [0, 1, 2, 3, 4, 5, 6, 7])
         [1, 0.8, 0.64, 0.512, 0.4096, 0.32768, 0.262144, 0.2097152]
     \<and> \<bar>valof (fmul (samplingRate (snd (throttleTimes 7 w env))) throttlingFactor)
          - 0.16777216\<bar> < 1 / 10 ^ 15
     \<and> fle (fmul (samplingRate (snd (throttleTimes 7 w env))) throttlingFactor)
          minSamplingThreshold
     \<and> fst (throttleTimes 8 w env) = Some errMaxSamplingAttempts
     \<and> NewSocket \<notin> set (newCalls (snd (throttleTimes 7 w env)) (snd (throttleTimes 8 w env)))
     \<and> sockets (snd (throttleTimes 7 w env)) = sockets w + 7
     \<and> sockets (snd (throttleTimes 8 w env)) = sockets w + 7
     \<and> samplingRate (snd (throttleTimes 8 w env)) = F64 7555786372591436 (- 55)"
proof -
  note ok = assms(2,3)
  have s0: "fst (throttleTimes 0 w env) = None
      \<and> samplingRate (snd (throttleTimes 0 w env)) = float_one
      \<and> sockets (snd (throttleTimes 0 w env)) = sockets w"
    using assms(1) by simp
  then have s0: "fst (throttleTimes 0 w env) = None
      \<and> samplingRate (snd (throttleTimes 0 w env)) = float_one
      \<and> sockets (snd (throttleTimes 0 w env)) = sockets w + 0"
    by simp
  have s1: "fst (throttleTimes 1 w env) = None
      \<and> samplingRate (snd (throttleTimes 1 w env)) = F64 7205759403792794 (- 53)
      \<and> sockets (snd (throttleTimes 1 w env)) = sockets w + 1"
    using throttleTimes_next [of 1 0 w env, OF _ s0 fmul_chain(1) above_threshold(1) ok]
    by simp
  have s2: "fst (throttleTimes 2 w env) = None
      \<and> samplingRate (snd (throttleTimes 2 w env)) = F64 5764607523034236 (- 53)
      \<and> sockets (snd (throttleTimes 2 w env)) = sockets w + 2"
    using throttleTimes_next [of 2 1 w env, OF _ s1 fmul_chain(2) above_threshold(2) ok]
    by simp
  have s3: "fst (throttleTimes 3 w env) = None
      \<and> samplingRate (snd (throttleTimes 3 w env)) = F64 4611686018427389 (- 53)
      \<and> sockets (snd (throttleTimes 3 w env)) = sockets w + 3"
    using throttleTimes_next [of 3 2 w env, OF _ s2 fmul_chain(3) above_threshold(3) ok]
    by simp
  have s4: "fst (throttleTimes 4 w env) = None
      \<and> samplingRate (snd (throttleTimes 4 w env)) = F64 7378697629483823 (- 54)
      \<and> sockets (snd (throttleTimes 4 w env)) = sockets w + 4"
    using throttleTimes_next [of 4 3 w env, OF _ s3 fmul_chain(4) above_threshold(4) ok]
    by simp
  have s5: "fst (throttleTimes 5 w env) = None
      \<and> samplingRate (snd (throttleTimes 5 w env)) = F64 5902958103587059 (- 54)
      \<and> sockets (snd (throttleTimes 5 w env)) = sockets w + 5"
    using throttleTimes_next [of 5 4 w env, OF _ s4 fmul_chain(5) above_threshold(5) ok]
    by simp
  have s6: "fst (throttleTimes 6 w env) = None
      \<and> samplingRate (snd (throttleTimes 6 w env)) = F64 4722366482869647 (- 54)
      \<and> sockets (snd (throttleTimes 6 w env)) = sockets w + 6"
    using throttleTimes_next [of 6 5 w env, OF _ s5 fmul_chain(6) above_threshold(6) ok]
    by simp
  have s7: "fst (throttleTimes 7 w env) = None
      \<and> samplingRate (snd (throttleTimes 7 w env)) = F64 7555786372591436 (- 55)
      \<and> sockets (snd (throttleTimes 7 w env)) = sockets w + 7"
    using throttleTimes_next [of 7 6 w env, OF _ s6 fmul_chain(7) above_threshold(7) ok]
    by simp
  obtain w7 where w7: "throttleTimes 7 w env = (None, w7)"
    using s7 by (cases "throttleTimes 7 w env") auto
  have e8: "(8::nat) = Suc 7"
    by simp
  have t8: "throttleTimes 8 w env = throttle w7 env"
    unfolding e8 using w7 by (simp only: throttleTimes.simps prod.case option.case)
  have u: "fle (fmul (samplingRate w7) throttlingFactor) minSamplingThreshold"
    using s7 w7 by (simp add: fmul_chain(8) above_threshold(8))
  have s8: "fst (throttleTimes 8 w env) = Some errMaxSamplingAttempts
      \<and> NewSocket \<notin> set (newCalls (snd (throttleTimes 7 w env)) (snd (throttleTimes 8 w env)))
      \<and> sockets (snd (throttleTimes 8 w env)) = sockets w + 7
      \<and> samplingRate (snd (throttleTimes 8 w env)) = F64 7555786372591436 (- 55)"
    using throttle_underflow [OF u, of env] s7 w7 by (simp add: t8)
  have close: "list_all2 (\<lambda>r d. \<bar>valof r - d\<bar> < 1 / 10 ^ 15)
         [F64 4503599627370496 (- 52), F64 7205759403792794 (- 53),
          F64 5764607523034236 (- 53), F64 4611686018427389 (- 53),
          F64 7378697629483823 (- 54), F64 5902958103587059 (- 54),
          F64 4722366482869647 (- 54), F64 7555786372591436 (- 55)]
         [1, 0.8, 0.64, 0.512, 0.4096, 0.32768, 0.262144, 0.2097152]"
    by simp
  have close8: "\<bar>valof (F64 6044629098073149 (- 55)) - 0.16777216\<bar> < 1 / 10 ^ 15"
    by simp
  have rates: "map (\<lambda>k. samplingRate (snd (throttleTimes k w env))) [0, 1, 2, 3, 4, 5, 6, 7] =
         [F64 4503599627370496 (- 52), F64 7205759403792794 (- 53),
          F64 5764607523034236 (- 53), F64 4611686018427389 (- 53),
          F64 7378697629483823 (- 54), F64 5902958103587059 (- 54),
          F64 4722366482869647 (- 54), F64 7555786372591436 (- 55)]"
    using s0 s1 s2 s3 s4 s5 s6 s7 by (simp add: float_one_def del: throttleTimes.simps)
  have r8: "replicate 8 (None :: error option) = [None, None, None, None, None, None, None, None]"
    by (simp add: numeral_eq_Suc)
  have oks: "map (\<lambda>k. fst (throttleTimes k w env)) [0, 1, 2, 3, 4, 5, 6, 7] = replicate 8 None"
    using s0 s1 s2 s3 s4 s5 s6 s7 unfolding r8 by (simp del: throttleTimes.simps)
  show ?thesis
    unfolding rates
    using oks close close8 s7 s8 
    by (simp only: fmul_chain above_threshold simp_thms)
qed


theorem throttle_rate_sequence_witness:
  "NewConsumer (delivers []) = Inr freshConsumer
   \<and> samplingRate freshConsumer = float_one
   \<and> newSocketErr (delivers []) = None \<and> setBPFErr (delivers []) = None
   \<and> map (\<lambda>k. samplingRate (snd (throttleTimes k freshConsumer (delivers []))))
        [0, 1, 2, 3, 4, 5, 6, 7] =
         [F64 4503599627370496 (- 52), F64 7205759403792794 (- 53),
          F64 5764607523034236 (- 53), F64 4611686018427389 (- 53),
          F64 7378697629483823 (- 54), F64 5902958103587059 (- 54),
          F64 4722366482869647 (- 54), F64 7555786372591436 (- 55)]
   \<and> fst (throttleTimes 8 freshConsumer (delivers [])) = Some errMaxSamplingAttempts
   \<and> sockets (snd (throttleTimes 8 freshConsumer (delivers []))) = 8"
proof -
  have h1: "samplingRate freshConsumer = float_one"
    by (simp add: freshConsumer_def)
  have h2: "newSocketErr (delivers []) = None" and h3: "setBPFErr (delivers []) = None"
    by (simp_all add: delivers_def)
  have s: "sockets freshConsumer = 1"
    by (simp add: freshConsumer_def)
  from throttle_rate_sequence [OF h1 h2 h3] show ?thesis
    using h1 h2 h3 freshConsumer_new by (simp add: s del: throttleTimes.simps)
qed

section \<open>Properties of checkMessage\<close>

text \<open>
  Claim C9. \<^verbatim>\<open>checkMessage m\<close> returns an error exactly when the header type of \<^verbatim>\<open>m\<close> is
  the netlink Error type and either the payload has fewer than four bytes, in which case the
  error is the short-error-message sentinel, or the first four bytes decode to a nonzero
  code, in which case the error is the system error number of the negated code. Every
  message of another header type, and every Error message whose code is zero, yields no
  error.
\<close>

theorem checkMessage_error_iff:
  "((\<exists>e. checkMessage m = Some e) \<longleftrightarrow>
      Type (Header m) = netlink_Error \<and>
      (length (Data m) < 4 \<or> nlenc_Int32 (take 4 (Data m)) \<noteq> 0))
   \<and> (Type (Header m) = netlink_Error \<and> length (Data m) < 4 \<longrightarrow>
        checkMessage m = Some errShortErrorMessage)
   \<and> (Type (Header m) = netlink_Error \<and> 4 \<le> length (Data m) \<and>
        nlenc_Int32 (take 4 (Data m)) \<noteq> 0 \<longrightarrow>
        checkMessage m = Some (Errno (word_of_int (- sint (nlenc_Int32 (take 4 (Data m)))))))
   \<and> (Type (Header m) \<noteq> netlink_Error \<or>
        (4 \<le> length (Data m) \<and> nlenc_Int32 (take 4 (Data m)) = 0) \<longrightarrow>
        checkMessage m = None)"
  by (simp add: checkMessage_def Let_def)

theorem checkMessage_error_iff_witness:
  "checkMessage \<lparr>Header = \<lparr>Length = 20, Type = 2, Flags = 0, Sequence = 1, PID = 0\<rparr>,
                 Data = [254, 255, 255, 255]\<rparr> = Some (Errno 2)
   \<and> checkMessage \<lparr>Header = \<lparr>Length = 18, Type = 2, Flags = 0, Sequence = 1, PID = 0\<rparr>,
                 Data = [254, 255]\<rparr> = Some errShortErrorMessage
   \<and> checkMessage \<lparr>Header = \<lparr>Length = 20, Type = 2, Flags = 0, Sequence = 1, PID = 0\<rparr>,
                 Data = [0, 0, 0, 0]\<rparr> = None
   \<and> checkMessage \<lparr>Header = \<lparr>Length = 20, Type = 3, Flags = 0, Sequence = 1, PID = 0\<rparr>,
                 Data = [254, 255, 255, 255]\<rparr> = None"
  using
    checkMessage_error_iff
      [of "\<lparr>Header = \<lparr>Length = 20, Type = 2, Flags = 0, Sequence = 1, PID = 0\<rparr>,
            Data = [254, 255, 255, 255]\<rparr>"]
    checkMessage_error_iff
      [of "\<lparr>Header = \<lparr>Length = 18, Type = 2, Flags = 0, Sequence = 1, PID = 0\<rparr>,
            Data = [254, 255]\<rparr>"]
    checkMessage_error_iff
      [of "\<lparr>Header = \<lparr>Length = 20, Type = 2, Flags = 0, Sequence = 1, PID = 0\<rparr>,
            Data = [0, 0, 0, 0]\<rparr>"]
    checkMessage_error_iff
      [of "\<lparr>Header = \<lparr>Length = 20, Type = 3, Flags = 0, Sequence = 1, PID = 0\<rparr>,
            Data = [254, 255, 255, 255]\<rparr>"]
  by (simp add: netlink_Error_def)

section \<open>Calls of the receive loop\<close>

lemma checkMessages_None:
  "checkMessages ms = None \<longleftrightarrow> (\<forall>m \<in> set ms. checkMessage m = None)"
  by (induction ms) (auto split: option.splits)

lemma emit_calls:
  "\<exists>ev. msgs ev = (if 0 < length ms \<and> Type (Header (last ms)) = netlink_Done
                     then butlast ms else ms)
     \<and> calls (snd (emit w output ms dump)) = calls w @ [Output output ev]"
  by (simp add: emit_def Let_def eventFor_def)

lemma process_calls:
  "\<exists>cs. calls (snd (process w output env ms dump)) = calls w @ cs
     \<and> set cs \<subseteq> {LogDebugf}
         \<union> (if dump then {} else {BreakerIsOpen, BreakerTick (length ms)} \<union> throttleCalls)
         \<union> (if checkMessages ms = None
            then {Output output ev | ev.
                    msgs ev = (if 0 < length ms \<and> Type (Header (last ms)) = netlink_Done
                               then butlast ms else ms)}
            else {})"
proof (cases "\<not> dump \<and> breakerOpen env")
  case True
  let ?w1 = "called w [BreakerTick (length ms), BreakerIsOpen]"
  obtain cs where "calls (snd (throttle ?w1 env)) = calls ?w1 @ cs" "set cs \<subseteq> throttleCalls"
    using throttle_calls by blast
  with True show ?thesis
    by (auto simp: process_def Let_def split: prod.splits option.splits)
next
  case False
  let ?w1 = "if \<not> dump then called w [BreakerTick (length ms), BreakerIsOpen] else w"
  show ?thesis
  proof (cases "checkMessages ms")
    case None
    obtain ev where "msgs ev = (if 0 < length ms \<and> Type (Header (last ms)) = netlink_Done
                     then butlast ms else ms)"
      "calls (snd (emit ?w1 output ms dump)) = calls ?w1 @ [Output output ev]"
      using emit_calls by blast
    with None False show ?thesis
      by (auto simp: process_def Let_def)
  next
    case (Some e)
    with False show ?thesis
      by (auto simp: process_def Let_def)
  qed
qed

lemma received_simps [simp]:
  "calls (received w env) = calls w @ [SocketReceive]"
  "pool (received w env) = snd (Get (Reset (pool w)))"
  "samplingRate (received w env) = samplingRate w"
  "sockets (received w env) = sockets w"
  "socket (received w env) = socket w"
  by (simp_all add: received_def Socket_Receive_def called_def)

lemma iteration_unfold:
  "iteration w output env dump =
     (case recvErr env of
        None \<Rightarrow> process (received w env) output env (recvMsgs env) dump
      | Some err \<Rightarrow>
          if socketError err = errEOF then (Return, received w env)
          else if socketError err = errENOBUF then
            (if dump then (Return, called (received w env) [LogWarnf])
             else (case throttle (called (received w env) [LogWarnf]) env of
                     (Some terr, w2) \<Rightarrow> (Return, w2)
                   | (None, w2) \<Rightarrow> (Continue, w2)))
          else process (received w env) output env (recvMsgs env) dump)"
  by (simp add: iteration_def received_def Socket_Receive_def split: option.splits)

lemma iteration_calls:
  "\<exists>cs. calls (snd (iteration w output env dump)) = calls w @ SocketReceive # cs
     \<and> set cs \<subseteq> iterationCalls output env dump"
proof -
  let ?w1 = "received w env"
  obtain ps where ps: "calls (snd (process ?w1 output env (recvMsgs env) dump)) = calls ?w1 @ ps"
    "set ps \<subseteq> iterationCalls output env dump"
    using process_calls [of ?w1 "output" env "recvMsgs env" dump]
    unfolding iterationCalls_def by blast
  obtain ts where ts: "calls (snd (throttle (called ?w1 [LogWarnf]) env)) =
      calls (called ?w1 [LogWarnf]) @ ts" "set ts \<subseteq> throttleCalls"
    using throttle_calls by blast
  show ?thesis
  proof (cases "recvErr env")
    case None
    with ps show ?thesis
      by (simp add: iteration_unfold)
  next
    case (Some err)
    consider "socketError err = errEOF"
      | "socketError err = errENOBUF" "dump"
      | "socketError err = errENOBUF" "\<not> dump"
      | "socketError err \<noteq> errEOF" "socketError err \<noteq> errENOBUF"
      by blast
    then show ?thesis
    proof cases
      case 1
      with Some show ?thesis by (simp add: iteration_unfold)
    next
      case 2
      with Some show ?thesis by (simp add: iteration_unfold iterationCalls_def)
    next
      case 3
      with Some ts show ?thesis
        by (auto simp: iteration_unfold iterationCalls_def split: prod.splits option.splits)
    next
      case 4
      with Some ps show ?thesis by (simp add: iteration_unfold)
    qed
  qed
qed

lemma receive_calls:
  "\<exists>cs. calls (snd (receive w output envs dump)) = calls w @ cs
     \<and> set cs \<subseteq> {SocketReceive} \<union> (\<Union>env \<in> set envs. iterationCalls output env dump)"
proof (induction envs arbitrary: w)
  case Nil
  show ?case by simp
next
  case (Cons env envs)
  obtain c w' where it: "iteration w output env dump = (c, w')"
    by (cases "iteration w output env dump")
  obtain cs where cs: "calls w' = calls w @ SocketReceive # cs"
    "set cs \<subseteq> iterationCalls output env dump"
    using iteration_calls [of w "output" env dump] it by auto
  show ?case
  proof (cases c)
    case Return
    with it cs show ?thesis by auto
  next
    case Continue
    obtain ds where "calls (snd (receive w' output envs dump)) = calls w' @ ds"
      "set ds \<subseteq> {SocketReceive} \<union> (\<Union>env \<in> set envs. iterationCalls output env dump)"
      using Cons.IH by blast
    with Continue it cs show ?thesis by auto
  qed
qed

lemma receive_Cons:
  "receive w output (env # envs) dump =
     (case iteration w output env dump of
        (Return, w') \<Rightarrow> (Returned, w')
      | (Continue, w') \<Rightarrow> receive w' output envs dump)"
  by simp

lemma called_Nil [simp]: "called w [] = w"
  by (simp add: called_def)

lemma process_pass:
  "dump \<or> \<not> breakerOpen env \<Longrightarrow>
     process w output env ms dump =
       (case checkMessages ms of
          Some e \<Rightarrow>
            (Continue,
             called w ((if dump then [] else [BreakerTick (length ms), BreakerIsOpen])
                       @ [LogDebugf]))
        | None \<Rightarrow>
            emit (called w (if dump then [] else [BreakerTick (length ms), BreakerIsOpen]))
              output ms dump)"
  by (auto simp: process_def Let_def split: option.splits)

lemma process_open:
  "\<not> dump \<Longrightarrow> breakerOpen env \<Longrightarrow>
     process w output env ms dump =
       (case throttle (called w [BreakerTick (length ms), BreakerIsOpen]) env of
          (Some e, w2) \<Rightarrow> (Return, w2)
        | (None, w2) \<Rightarrow> (Continue, w2))"
  by (simp add: process_def Let_def)

lemma process_streaming_calls:
  "\<exists>cs. calls (snd (process w output env ms False)) =
     calls w @ BreakerTick (length ms) # BreakerIsOpen # cs
     \<and> set cs \<subseteq> {LogDebugf} \<union> throttleCalls \<union> range (Output output)
     \<and> (\<not> breakerOpen env \<longrightarrow> set cs \<subseteq> {LogDebugf} \<union> range (Output output))"
proof (cases "breakerOpen env")
  case True
  obtain ts where "calls (snd (throttle (called w [BreakerTick (length ms), BreakerIsOpen]) env))
      = calls (called w [BreakerTick (length ms), BreakerIsOpen]) @ ts"
    "set ts \<subseteq> throttleCalls"
    using throttle_calls by blast
  with True show ?thesis
    by (auto simp: process_open split: prod.splits option.splits)
next
  case False
  then show ?thesis
    by (auto simp: process_pass emit_def Let_def split: option.splits)
qed

lemma initNetlinkSocket_recvErr [simp]:
  "initNetlinkSocket w (env\<lparr>recvErr := x\<rparr>) rate = initNetlinkSocket w env rate"
  by (cases "newSocketErr env"; cases "setBPFErr env")
    (simp_all add: initNetlinkSocket_def Let_def)

lemma throttle_recvErr [simp]: "throttle w (env\<lparr>recvErr := x\<rparr>) = throttle w env"
  by (simp add: throttle_def Let_def)

lemma process_recvErr [simp]:
  "process w output (env\<lparr>recvErr := x\<rparr>) ms dump = process w output env ms dump"
  by (simp add: process_def Let_def)

lemma received_recvErr [simp]: "received w (env\<lparr>recvErr := x\<rparr>) = received w env"
  by (simp add: received_def Socket_Receive_def)

lemma iteration_other:
  assumes "recvErr env = None
    \<or> (\<exists>err. recvErr env = Some err \<and> socketError err \<noteq> errEOF
          \<and> socketError err \<noteq> errENOBUF)"
  shows "iteration w output env dump = process (received w env) output env (recvMsgs env) dump"
  using assms by (auto simp: iteration_unfold)

lemma not_iterationCalls [simp]:
  "SocketReceive \<notin> iterationCalls output env dump"
  "CloseOutput ch \<notin> iterationCalls output env dump"
  by (auto simp: iterationCalls_def throttleCalls_def buildCalls_def)

lemma Output_iterationCalls:
  "Output ch ev \<in> iterationCalls output env dump \<longleftrightarrow>
     ch = output \<and> checkMessages (recvMsgs env) = None
     \<and> msgs ev = (if 0 < length (recvMsgs env)
                      \<and> Type (Header (last (recvMsgs env))) = netlink_Done
                   then butlast (recvMsgs env) else recvMsgs env)"
  by (auto simp: iterationCalls_def throttleCalls_def buildCalls_def)

lemma iterationCalls_dump:
  "c \<in> iterationCalls output env True \<Longrightarrow>
     c \<noteq> BreakerIsOpen \<and> c \<noteq> BreakerReset \<and> (\<forall>n. c \<noteq> BreakerTick n)
     \<and> c \<notin> {ConnLeaveGroup, SocketClose, NewSocket, ConnJoinGroup}"
  by (auto simp: iterationCalls_def split: if_splits)

lemma not_Done_butlast:
  assumes "\<forall>m \<in> set (butlast ms). Type (Header m) \<noteq> netlink_Done"
    and "\<not> (0 < length ms \<and> Type (Header (last ms)) = netlink_Done)"
  shows "\<forall>m \<in> set ms. Type (Header m) \<noteq> netlink_Done"
proof (cases ms rule: rev_cases)
  case Nil
  then show ?thesis by simp
next
  case (snoc xs x)
  with assms show ?thesis by auto
qed

section \<open>Buffer overflow\<close>

text \<open>
  Claim C5. When \<^verbatim>\<open>Receive\<close> returns an error that \<^verbatim>\<open>socketError\<close> classifies as buffer
  overflow, the loop in dump mode logs and returns, having made no call but the read and
  the log, hence without a throttle; the loop in streaming mode logs, invokes the throttle
  and continues with the next iteration if the throttle succeeds and returns if it fails.
\<close>

theorem overflow_handling:
  assumes "recvErr env = Some err" and "socketError err = errENOBUF"
  shows "receive w output (env # envs) True = (Returned, called (received w env) [LogWarnf])
       \<and> newCalls w (called (received w env) [LogWarnf]) = [SocketReceive, LogWarnf]
       \<and> receive w output (env # envs) False =
           (case throttle (called (received w env) [LogWarnf]) env of
              (None, w2) \<Rightarrow> receive w2 output envs False
            | (Some terr, w2) \<Rightarrow> (Returned, w2))"
proof -
  have "newCalls w (called (received w env) [LogWarnf]) = [SocketReceive, LogWarnf]"
    by (rule newCallsI) simp
  with assms show ?thesis
    by (simp add: iteration_unfold split: prod.splits option.splits)
qed

theorem overflow_handling_witness:
  "recvErr (fails ''recvmsg: no buffer space available'')
     = Some ''recvmsg: no buffer space available''
   \<and> socketError ''recvmsg: no buffer space available'' = errENOBUF
   \<and> fst (receive freshConsumer 0 [fails ''recvmsg: no buffer space available''] True)
       = Returned
   \<and> newCalls freshConsumer
        (snd (receive freshConsumer 0 [fails ''recvmsg: no buffer space available''] True))
       = [SocketReceive, LogWarnf]
   \<and> fst (receive freshConsumer 0 [fails ''recvmsg: no buffer space available''] False)
       = Blocked
   \<and> newCalls freshConsumer
        (snd (receive freshConsumer 0 [fails ''recvmsg: no buffer space available''] False))
       = [SocketReceive, LogWarnf, ConnLeaveGroup, SocketClose, NewSocket, NewConn,
          SetSocketBufferSize, GetSocketBufferSize, LogDebugf, LogInfof,
          GenerateBPFSampler (F64 7205759403792794 (- 53)), SocketSetBPF,
          BreakerReset, ConnJoinGroup, SocketReceive]"
proof -
  have h1: "recvErr (fails ''recvmsg: no buffer space available'')
      = Some ''recvmsg: no buffer space available''"
    by (simp add: fails_def)
  have h2: "socketError ''recvmsg: no buffer space available'' = errENOBUF"
    by (simp add: socketError_def)
  from overflow_handling [OF h1 h2, of freshConsumer 0 "[]"] h1 h2 show ?thesis
    by (simp add: model_defs)
qed

section \<open>Other errors of the socket\<close>

text \<open>
  Claim C10, as amended. When \<^verbatim>\<open>Receive\<close> returns an error that is neither end-of-stream
  nor buffer overflow, the error itself makes the loop neither return nor read again: the
  iteration is the one of a successful read of the same, possibly empty, batch, with a
  single call of \<^verbatim>\<open>Receive\<close>, and the loop goes on as that iteration says. In streaming mode
  the length of the batch is fed to the circuit breaker; if the breaker is open, the loop
  throttles instead of sending, and returns if the throttle fails. If a message fails
  \<^verbatim>\<open>checkMessage\<close>, the batch is dropped and the loop reads again. Otherwise the batch,
  without a done marker at its end, is sent as an event on the output channel, and the
  loop reads again unless the batch has ended a dump.
\<close>

theorem other_error_falls_through:
  assumes "recvErr env = Some err"
    and "socketError err \<noteq> errEOF" and "socketError err \<noteq> errENOBUF"
  shows "iteration w output env dump = iteration w output (env\<lparr>recvErr := None\<rparr>) dump
       \<and> receive w output (env # envs) dump =
           receive w output (env\<lparr>recvErr := None\<rparr> # envs) dump
       \<and> iteration w output env dump =
           process (received w env) output env (recvMsgs env) dump
       \<and> receive w output (env # envs) dump =
           (case process (received w env) output env (recvMsgs env) dump of
              (Return, w') \<Rightarrow> (Returned, w')
            | (Continue, w') \<Rightarrow> receive w' output envs dump)
       \<and> (\<exists>cs. newCalls w (snd (iteration w output env dump)) = SocketReceive # cs
              \<and> SocketReceive \<notin> set cs
              \<and> (\<not> dump \<longrightarrow>
                   take 2 cs = [BreakerTick (length (recvMsgs env)), BreakerIsOpen]))
       \<and> ((dump \<or> \<not> breakerOpen env) \<and> checkMessages (recvMsgs env) = None \<longrightarrow>
            last (calls (snd (iteration w output env dump))) =
              Output output
                \<lparr>msgs = (if 0 < length (recvMsgs env)
                             \<and> Type (Header (last (recvMsgs env))) = netlink_Done
                          then butlast (recvMsgs env) else recvMsgs env),
                 buffer = inUse (pool (received w env))\<rparr>
            \<and> receive w output (env # envs) dump =
                (if dump \<and> 0 < length (recvMsgs env)
                      \<and> Type (Header (last (recvMsgs env))) = netlink_Done
                 then (Returned,
                       called (received w env)
                         [Output output
                            \<lparr>msgs = butlast (recvMsgs env),
                             buffer = inUse (pool (received w env))\<rparr>])
                 else receive
                        (called (received w env)
                           ((if dump then []
                             else [BreakerTick (length (recvMsgs env)), BreakerIsOpen]) @
                            [Output output
                               \<lparr>msgs = (if 0 < length (recvMsgs env)
                                            \<and> Type (Header (last (recvMsgs env))) = netlink_Done
                                         then butlast (recvMsgs env) else recvMsgs env),
                                buffer = inUse (pool (received w env))\<rparr>]))
                        output envs dump))
       \<and> (\<not> dump \<and> breakerOpen env \<longrightarrow>
            receive w output (env # envs) dump =
              (case throttle
                      (called (received w env)
                         [BreakerTick (length (recvMsgs env)), BreakerIsOpen]) env of
                 (None, w2) \<Rightarrow> receive w2 output envs dump
               | (Some terr, w2) \<Rightarrow> (Returned, w2)))
       \<and> ((dump \<or> \<not> breakerOpen env) \<and> checkMessages (recvMsgs env) \<noteq> None \<longrightarrow>
            receive w output (env # envs) dump =
              receive
                (called (received w env)
                   ((if dump then [] else [BreakerTick (length (recvMsgs env)), BreakerIsOpen])
                    @ [LogDebugf]))
                output envs dump)"
proof -
  let ?ms = "recvMsgs env"
  let ?strip = "if 0 < length ?ms \<and> Type (Header (last ?ms)) = netlink_Done
                then butlast ?ms else ?ms"
  let ?ticks = "if dump then [] else [BreakerTick (length ?ms), BreakerIsOpen]"
  have other: "recvErr env = None
    \<or> (\<exists>err. recvErr env = Some err \<and> socketError err \<noteq> errEOF
          \<and> socketError err \<noteq> errENOBUF)"
    using assms by simp
  have p: "iteration w output env dump = process (received w env) output env ?ms dump"
    using other by (rule iteration_other)
  have q: "iteration w output (env\<lparr>recvErr := None\<rparr>) dump =
      process (received w env) output env ?ms dump"
    using iteration_other [of "env\<lparr>recvErr := None\<rparr>" w "output" dump] by simp
  have i: "iteration w output env dump = iteration w output (env\<lparr>recvErr := None\<rparr>) dump"
    by (simp add: p q)
  have r: "receive w output (env # envs) dump =
      receive w output (env\<lparr>recvErr := None\<rparr> # envs) dump"
    by (simp add: p q)
  have loop: "receive w output (env # envs) dump =
           (case process (received w env) output env ?ms dump of
              (Return, w') \<Rightarrow> (Returned, w')
            | (Continue, w') \<Rightarrow> receive w' output envs dump)"
    by (simp only: receive_Cons p)
  obtain cs where cs: "calls (snd (iteration w output env dump)) = calls w @ SocketReceive # cs"
    "set cs \<subseteq> iterationCalls output env dump"
    using iteration_calls [of w "output" env dump] by (elim exE conjE) (rule that)
  have n: "newCalls w (snd (iteration w output env dump)) = SocketReceive # cs"
    using cs(1) by (rule newCallsI)
  have nr: "SocketReceive \<notin> set cs"
    using cs(2) by auto
  have t: "\<not> dump \<longrightarrow> take 2 cs = [BreakerTick (length ?ms), BreakerIsOpen]"
  proof
    assume "\<not> dump"
    then have d: "dump = False" by simp
    obtain ds where "calls (snd (process (received w env) output env ?ms False)) =
        calls (received w env) @ BreakerTick (length ?ms) # BreakerIsOpen # ds"
      using process_streaming_calls by blast
    moreover have "iteration w output env False =
        process (received w env) output env ?ms False"
      using p d by simp
    ultimately have "cs = BreakerTick (length ?ms) # BreakerIsOpen # ds"
      using cs(1) d by simp
    then show "take 2 cs = [BreakerTick (length ?ms), BreakerIsOpen]"
      by simp
  qed
  have ex: "\<exists>cs. newCalls w (snd (iteration w output env dump)) = SocketReceive # cs
              \<and> SocketReceive \<notin> set cs
              \<and> (\<not> dump \<longrightarrow> take 2 cs = [BreakerTick (length ?ms), BreakerIsOpen])"
    using n nr t by blast
  have e: "(dump \<or> \<not> breakerOpen env) \<and> checkMessages ?ms = None \<longrightarrow>
      last (calls (snd (iteration w output env dump))) =
        Output output \<lparr>msgs = ?strip, buffer = inUse (pool (received w env))\<rparr>
      \<and> receive w output (env # envs) dump =
          (if dump \<and> 0 < length ?ms \<and> Type (Header (last ?ms)) = netlink_Done
           then (Returned,
                 called (received w env)
                   [Output output
                      \<lparr>msgs = butlast ?ms, buffer = inUse (pool (received w env))\<rparr>])
           else receive
                  (called (received w env)
                     (?ticks @
                      [Output output
                         \<lparr>msgs = ?strip, buffer = inUse (pool (received w env))\<rparr>]))
                  output envs dump)"
    by (auto simp: loop p process_pass emit_def eventFor_def Let_def simp del: receive.simps)
  have o: "\<not> dump \<and> breakerOpen env \<longrightarrow>
      receive w output (env # envs) dump =
        (case throttle (called (received w env) [BreakerTick (length ?ms), BreakerIsOpen]) env of
           (None, w2) \<Rightarrow> receive w2 output envs dump
         | (Some terr, w2) \<Rightarrow> (Returned, w2))"
  proof (intro impI, elim conjE)
    assume nd: "\<not> dump" and bo: "breakerOpen env"
    have "process (received w env) output env ?ms dump =
        (case throttle (called (received w env) [BreakerTick (length ?ms), BreakerIsOpen]) env of
           (Some e, w2) \<Rightarrow> (Return, w2)
         | (None, w2) \<Rightarrow> (Continue, w2))"
      using nd bo by (rule process_open)
    then show "receive w output (env # envs) dump =
        (case throttle (called (received w env) [BreakerTick (length ?ms), BreakerIsOpen]) env of
           (None, w2) \<Rightarrow> receive w2 output envs dump
         | (Some terr, w2) \<Rightarrow> (Returned, w2))"
      unfolding loop by (simp split: prod.splits option.splits del: receive.simps)
  qed
  have b: "(dump \<or> \<not> breakerOpen env) \<and> checkMessages ?ms \<noteq> None \<longrightarrow>
      receive w output (env # envs) dump =
        receive (called (received w env) (?ticks @ [LogDebugf])) output envs dump"
    by (auto simp: loop process_pass simp del: receive.simps)
  show ?thesis
    by (rule conjI [OF i conjI [OF r conjI [OF p conjI [OF loop
          conjI [OF ex conjI [OF e conjI [OF o b]]]]]]])
qed

theorem other_error_falls_through_witness:
  "recvErr ((delivers [dataMsg])\<lparr>recvErr := Some ''recvmsg: interrupted system call''\<rparr>)
     = Some ''recvmsg: interrupted system call''
   \<and> socketError ''recvmsg: interrupted system call'' \<noteq> errEOF
   \<and> socketError ''recvmsg: interrupted system call'' \<noteq> errENOBUF
   \<and> iteration freshConsumer 0
        ((delivers [dataMsg])\<lparr>recvErr := Some ''recvmsg: interrupted system call''\<rparr>) False
       = iteration freshConsumer 0 (delivers [dataMsg]) False
   \<and> fst (iteration freshConsumer 0
        ((delivers [dataMsg])\<lparr>recvErr := Some ''recvmsg: interrupted system call''\<rparr>) False)
       = Continue
   \<and> newCalls freshConsumer
        (snd (iteration freshConsumer 0
           ((delivers [dataMsg])\<lparr>recvErr := Some ''recvmsg: interrupted system call''\<rparr>)
           False))
       = [SocketReceive, BreakerTick 1, BreakerIsOpen,
          Output 0 \<lparr>msgs = [dataMsg], buffer = Some 0\<rparr>]
   \<and> receive freshConsumer 0
        [(delivers [dataMsg])\<lparr>recvErr := Some ''recvmsg: interrupted system call''\<rparr>] False
       = receive
           (called (received freshConsumer
              ((delivers [dataMsg])\<lparr>recvErr := Some ''recvmsg: interrupted system call''\<rparr>))
              [BreakerTick 1, BreakerIsOpen, Output 0 \<lparr>msgs = [dataMsg], buffer = Some 0\<rparr>])
           0 [] False"
proof -
  let ?env = "(delivers [dataMsg])\<lparr>recvErr := Some ''recvmsg: interrupted system call''\<rparr>"
  have h1: "recvErr ?env = Some ''recvmsg: interrupted system call''"
    by simp
  have h2: "socketError ''recvmsg: interrupted system call'' \<noteq> errEOF"
    and h3: "socketError ''recvmsg: interrupted system call'' \<noteq> errENOBUF"
    by (simp_all add: socketError_def)
  have u: "?env\<lparr>recvErr := None\<rparr> = delivers [dataMsg]"
    by (simp add: delivers_def)
  have e: "iteration freshConsumer 0 (delivers [dataMsg]) False =
      (Continue, called (received freshConsumer (delivers [dataMsg]))
         [BreakerTick 1, BreakerIsOpen, Output 0 \<lparr>msgs = [dataMsg], buffer = Some 0\<rparr>])"
    by (simp add: model_defs)
  have c: "\<not> breakerOpen ?env" "checkMessages (recvMsgs ?env) = None"
    "recvMsgs ?env = [dataMsg]" "Type (Header dataMsg) \<noteq> netlink_Done"
    "inUse (pool (received freshConsumer ?env)) = Some 0"
    by (simp_all add: model_defs)
  note t = other_error_falls_through [OF h1 h2 h3, of freshConsumer 0 False "[]"]
  from t have i: "iteration freshConsumer 0 ?env False =
      iteration freshConsumer 0 (?env\<lparr>recvErr := None\<rparr>) False"
    by (rule conjunct1)
  have l: "receive freshConsumer 0 [?env] False =
      receive
        (called (received freshConsumer ?env)
           [BreakerTick 1, BreakerIsOpen, Output 0 \<lparr>msgs = [dataMsg], buffer = Some 0\<rparr>])
        0 [] False"
    using t [THEN conjunct2, THEN conjunct2, THEN conjunct2, THEN conjunct2, THEN conjunct2,
        THEN conjunct1] c
    by (simp del: receive.simps)
  have n: "newCalls freshConsumer (snd (iteration freshConsumer 0 ?env False))
       = [SocketReceive, BreakerTick 1, BreakerIsOpen,
          Output 0 \<lparr>msgs = [dataMsg], buffer = Some 0\<rparr>]"
    using i unfolding u by (simp add: e newCalls_def)
  have f: "fst (iteration freshConsumer 0 ?env False) = Continue"
    using i unfolding u by (simp add: e)
  from i have i': "iteration freshConsumer 0 ?env False =
      iteration freshConsumer 0 (delivers [dataMsg]) False"
    unfolding u .
  show ?thesis
    by (rule conjI [OF h1 conjI [OF h2 conjI [OF h3 conjI [OF i' conjI [OF f conjI [OF n l]]]]]])
qed

text \<open>
  The claim as it was stated fails where it says that the loop does not return and that
  the batch is sent. With the breaker open and the sampling rate at its last value above
  the threshold, the throttle fails and the loop returns without a send; with the breaker
  open and the rate at \<^verbatim>\<open>1.0\<close>, the iteration throttles and sends nothing; and a batch with
  an error message is dropped.
\<close>

theorem other_error_not_emitted_counterexample:
  "recvErr ((fails ''recvmsg: interrupted system call'')\<lparr>breakerOpen := True\<rparr>)
     = Some ''recvmsg: interrupted system call''
   \<and> socketError ''recvmsg: interrupted system call''
       = ErrOther ''recvmsg: interrupted system call''
   \<and> fst (receive (freshConsumer\<lparr>samplingRate := F64 7555786372591436 (- 55)\<rparr>) 0
            [(fails ''recvmsg: interrupted system call'')\<lparr>breakerOpen := True\<rparr>] False)
       = Returned
   \<and> newCalls (freshConsumer\<lparr>samplingRate := F64 7555786372591436 (- 55)\<rparr>)
        (snd (receive (freshConsumer\<lparr>samplingRate := F64 7555786372591436 (- 55)\<rparr>) 0
                [(fails ''recvmsg: interrupted system call'')\<lparr>breakerOpen := True\<rparr>] False))
       = [SocketReceive, BreakerTick 0, BreakerIsOpen, ConnLeaveGroup, SocketClose, LogErrorf]
   \<and> newCalls freshConsumer
        (snd (iteration freshConsumer 0
                ((fails ''recvmsg: interrupted system call'')\<lparr>breakerOpen := True\<rparr>) False))
       = [SocketReceive, BreakerTick 0, BreakerIsOpen, ConnLeaveGroup, SocketClose, NewSocket,
          NewConn, SetSocketBufferSize, GetSocketBufferSize, LogDebugf, LogInfof,
          GenerateBPFSampler (F64 7205759403792794 (- 53)), SocketSetBPF,
          BreakerReset, ConnJoinGroup]
   \<and> newCalls freshConsumer
        (snd (iteration freshConsumer 0
                ((delivers [dataMsg, errorMsg])
                   \<lparr>recvErr := Some ''recvmsg: interrupted system call''\<rparr>) True))
       = [SocketReceive, LogDebugf]"
  by (simp add: model_defs)

section \<open>Batches with an error message\<close>

text \<open>
  Claim C6. If some message of the received batch fails \<^verbatim>\<open>checkMessage\<close>, the iteration
  sends no event at all, so the batch is never emitted, not even in part. When the
  iteration gets to the check of the messages (the read did not end the stream or
  overflow, and the breaker did not trip), it only logs and the loop restarts with the
  next read.
\<close>

theorem error_batch_not_emitted:
  assumes "\<exists>m \<in> set (recvMsgs env). checkMessage m \<noteq> None"
  shows "(\<forall>ch ev. Output ch ev \<notin> set (newCalls w (snd (iteration w output env dump))))
       \<and> ((recvErr env = None
            \<or> (\<exists>err. recvErr env = Some err \<and> socketError err \<noteq> errEOF
                  \<and> socketError err \<noteq> errENOBUF))
           \<and> (dump \<or> \<not> breakerOpen env) \<longrightarrow>
           iteration w output env dump =
             (Continue,
              called (received w env)
                ((if dump then [] else [BreakerTick (length (recvMsgs env)), BreakerIsOpen])
                 @ [LogDebugf]))
           \<and> receive w output (env # envs) dump =
               receive
                 (called (received w env)
                   ((if dump then [] else [BreakerTick (length (recvMsgs env)), BreakerIsOpen])
                    @ [LogDebugf]))
                 output envs dump)"
proof -
  let ?ms = "recvMsgs env"
  have bad: "checkMessages ?ms \<noteq> None"
    using assms by (simp add: checkMessages_None)
  obtain cs where cs: "calls (snd (iteration w output env dump)) = calls w @ SocketReceive # cs"
    "set cs \<subseteq> iterationCalls output env dump"
    using iteration_calls by blast
  have n: "newCalls w (snd (iteration w output env dump)) = SocketReceive # cs"
    using cs(1) by (rule newCallsI)
  have none: "\<forall>ch ev. Output ch ev \<notin> set (newCalls w (snd (iteration w output env dump)))"
    using cs(2) bad by (auto simp: n Output_iterationCalls)
  have restart: "(recvErr env = None
            \<or> (\<exists>err. recvErr env = Some err \<and> socketError err \<noteq> errEOF
                  \<and> socketError err \<noteq> errENOBUF))
           \<and> (dump \<or> \<not> breakerOpen env) \<longrightarrow>
           iteration w output env dump =
             (Continue,
              called (received w env)
                ((if dump then [] else [BreakerTick (length ?ms), BreakerIsOpen])
                 @ [LogDebugf]))"
    using bad by (auto simp: iteration_other process_pass)
  have again: "(recvErr env = None
            \<or> (\<exists>err. recvErr env = Some err \<and> socketError err \<noteq> errEOF
                  \<and> socketError err \<noteq> errENOBUF))
           \<and> (dump \<or> \<not> breakerOpen env) \<longrightarrow>
           receive w output (env # envs) dump =
               receive
                 (called (received w env)
                   ((if dump then [] else [BreakerTick (length ?ms), BreakerIsOpen])
                    @ [LogDebugf]))
                 output envs dump"
  proof
    assume "(recvErr env = None
            \<or> (\<exists>err. recvErr env = Some err \<and> socketError err \<noteq> errEOF
                  \<and> socketError err \<noteq> errENOBUF))
           \<and> (dump \<or> \<not> breakerOpen env)"
    with restart have "iteration w output env dump =
             (Continue,
              called (received w env)
                ((if dump then [] else [BreakerTick (length ?ms), BreakerIsOpen])
                 @ [LogDebugf]))"
      by (rule mp)
    then show "receive w output (env # envs) dump =
               receive
                 (called (received w env)
                   ((if dump then [] else [BreakerTick (length ?ms), BreakerIsOpen])
                    @ [LogDebugf]))
                 output envs dump"
      by (simp only: receive_Cons prod.case ctl.case)
  qed
  have both: "(recvErr env = None
            \<or> (\<exists>err. recvErr env = Some err \<and> socketError err \<noteq> errEOF
                  \<and> socketError err \<noteq> errENOBUF))
           \<and> (dump \<or> \<not> breakerOpen env) \<longrightarrow>
           iteration w output env dump =
             (Continue,
              called (received w env)
                ((if dump then [] else [BreakerTick (length ?ms), BreakerIsOpen])
                 @ [LogDebugf]))
           \<and> receive w output (env # envs) dump =
               receive
                 (called (received w env)
                   ((if dump then [] else [BreakerTick (length ?ms), BreakerIsOpen])
                    @ [LogDebugf]))
                 output envs dump"
  proof
    assume c: "(recvErr env = None
            \<or> (\<exists>err. recvErr env = Some err \<and> socketError err \<noteq> errEOF
                  \<and> socketError err \<noteq> errENOBUF))
           \<and> (dump \<or> \<not> breakerOpen env)"
    from restart c have r1: "iteration w output env dump =
             (Continue,
              called (received w env)
                ((if dump then [] else [BreakerTick (length ?ms), BreakerIsOpen])
                 @ [LogDebugf]))"
      by (rule mp)
    from again c have r2: "receive w output (env # envs) dump =
               receive
                 (called (received w env)
                   ((if dump then [] else [BreakerTick (length ?ms), BreakerIsOpen])
                    @ [LogDebugf]))
                 output envs dump"
      by (rule mp)
    from r1 r2 show "iteration w output env dump =
             (Continue,
              called (received w env)
                ((if dump then [] else [BreakerTick (length ?ms), BreakerIsOpen])
                 @ [LogDebugf]))
           \<and> receive w output (env # envs) dump =
               receive
                 (called (received w env)
                   ((if dump then [] else [BreakerTick (length ?ms), BreakerIsOpen])
                    @ [LogDebugf]))
                 output envs dump"
      by (rule conjI)
  qed
  from none both show ?thesis
    by (rule conjI)
qed

theorem error_batch_not_emitted_witness:
  "(\<exists>m \<in> set (recvMsgs (delivers [dataMsg, errorMsg])). checkMessage m \<noteq> None)
   \<and> checkMessage errorMsg = Some (Errno 2)
   \<and> recvErr (delivers [dataMsg, errorMsg]) = None
   \<and> iteration freshConsumer 0 (delivers [dataMsg, errorMsg]) True =
       (Continue, called (received freshConsumer (delivers [dataMsg, errorMsg])) [LogDebugf])
   \<and> newCalls freshConsumer (snd (iteration freshConsumer 0 (delivers [dataMsg, errorMsg]) True))
       = [SocketReceive, LogDebugf]
   \<and> newCalls freshConsumer
        (snd (iteration freshConsumer 0 (delivers [dataMsg, errorMsg]) False))
       = [SocketReceive, BreakerTick 2, BreakerIsOpen, LogDebugf]"
proof -
  let ?env = "delivers [dataMsg, errorMsg]"
  have c: "checkMessage errorMsg = Some (Errno 2)"
    by (simp add: checkMessage_def errorMsg_def netlink_Error_def)
  have h: "\<exists>m \<in> set (recvMsgs ?env). checkMessage m \<noteq> None"
    by (simp add: delivers_def c)
  have r: "recvErr ?env = None" and b: "\<not> breakerOpen ?env"
    and l: "length (recvMsgs ?env) = 2"
    by (simp_all add: delivers_def)
  from error_batch_not_emitted [OF h, of freshConsumer 0 True "[]"]
    error_batch_not_emitted [OF h, of freshConsumer 0 False "[]"] h c r b l
  show ?thesis
    by (simp add: newCalls_def)
qed

section \<open>The circuit breaker\<close>

text \<open>
  Claim C7, as amended. In streaming mode every iteration whose read is classified
  neither as end-of-stream nor as buffer overflow first feeds the length of the batch to
  the circuit breaker and asks it whether it is open; if it is, the throttle is invoked
  and the loop continues when the throttle succeeds and returns when it fails; if it is
  not, no throttle takes place. In dump mode the loop never calls the breaker and never
  throttles, whatever the socket answers.
\<close>

theorem breaker_only_when_streaming:
  "(recvErr env = None
      \<or> (\<exists>err. recvErr env = Some err \<and> socketError err \<noteq> errEOF
            \<and> socketError err \<noteq> errENOBUF) \<longrightarrow>
      (\<exists>cs. newCalls w (snd (iteration w output env False)) =
          SocketReceive # BreakerTick (length (recvMsgs env)) # BreakerIsOpen # cs)
      \<and> (breakerOpen env \<longrightarrow>
           receive w output (env # envs) False =
             (case throttle
                     (called (received w env)
                        [BreakerTick (length (recvMsgs env)), BreakerIsOpen]) env of
                (None, w2) \<Rightarrow> receive w2 output envs False
              | (Some terr, w2) \<Rightarrow> (Returned, w2)))
      \<and> (\<not> breakerOpen env \<longrightarrow>
           set (newCalls w (snd (iteration w output env False)))
             \<inter> {ConnLeaveGroup, SocketClose, NewSocket, BreakerReset, ConnJoinGroup} = {}))
   \<and> (\<forall>c \<in> set (newCalls w (snd (receive w output envs True))).
         c \<noteq> BreakerIsOpen \<and> c \<noteq> BreakerReset \<and> (\<forall>n. c \<noteq> BreakerTick n)
         \<and> c \<notin> {ConnLeaveGroup, SocketClose, NewSocket, ConnJoinGroup})"
proof -
  let ?ms = "recvMsgs env"
  let ?other = "recvErr env = None
      \<or> (\<exists>err. recvErr env = Some err \<and> socketError err \<noteq> errEOF
            \<and> socketError err \<noteq> errENOBUF)"
  have stream: "?other \<longrightarrow>
      (\<exists>cs. newCalls w (snd (iteration w output env False)) =
          SocketReceive # BreakerTick (length ?ms) # BreakerIsOpen # cs)
      \<and> (breakerOpen env \<longrightarrow>
           receive w output (env # envs) False =
             (case throttle
                     (called (received w env) [BreakerTick (length ?ms), BreakerIsOpen]) env of
                (None, w2) \<Rightarrow> receive w2 output envs False
              | (Some terr, w2) \<Rightarrow> (Returned, w2)))
      \<and> (\<not> breakerOpen env \<longrightarrow>
           set (newCalls w (snd (iteration w output env False)))
             \<inter> {ConnLeaveGroup, SocketClose, NewSocket, BreakerReset, ConnJoinGroup} = {})"
  proof
    assume o: ?other
    have p: "iteration w output env False = process (received w env) output env ?ms False"
      using o by (rule iteration_other)
    obtain cs where cs: "calls (snd (process (received w env) output env ?ms False)) =
        calls (received w env) @ BreakerTick (length ?ms) # BreakerIsOpen # cs"
      "\<not> breakerOpen env \<longrightarrow> set cs \<subseteq> {LogDebugf} \<union> range (Output output)"
      using process_streaming_calls by blast
    have n: "newCalls w (snd (iteration w output env False)) =
        SocketReceive # BreakerTick (length ?ms) # BreakerIsOpen # cs"
      by (rule newCallsI) (simp add: p cs(1))
    have t: "breakerOpen env \<longrightarrow>
           receive w output (env # envs) False =
             (case throttle
                     (called (received w env) [BreakerTick (length ?ms), BreakerIsOpen]) env of
                (None, w2) \<Rightarrow> receive w2 output envs False
              | (Some terr, w2) \<Rightarrow> (Returned, w2))"
      by (auto simp: p process_open split: prod.splits option.splits)
    have q: "\<not> breakerOpen env \<longrightarrow>
           set (newCalls w (snd (iteration w output env False)))
             \<inter> {ConnLeaveGroup, SocketClose, NewSocket, BreakerReset, ConnJoinGroup} = {}"
      using cs(2) by (auto simp: n)
    from n have ex: "\<exists>cs. newCalls w (snd (iteration w output env False)) =
          SocketReceive # BreakerTick (length ?ms) # BreakerIsOpen # cs"
      by blast
    show "(\<exists>cs. newCalls w (snd (iteration w output env False)) =
          SocketReceive # BreakerTick (length ?ms) # BreakerIsOpen # cs)
      \<and> (breakerOpen env \<longrightarrow>
           receive w output (env # envs) False =
             (case throttle
                     (called (received w env) [BreakerTick (length ?ms), BreakerIsOpen]) env of
                (None, w2) \<Rightarrow> receive w2 output envs False
              | (Some terr, w2) \<Rightarrow> (Returned, w2)))
      \<and> (\<not> breakerOpen env \<longrightarrow>
           set (newCalls w (snd (iteration w output env False)))
             \<inter> {ConnLeaveGroup, SocketClose, NewSocket, BreakerReset, ConnJoinGroup} = {})"
      by (rule conjI [OF ex conjI [OF t q]])
  qed
  obtain ds where ds: "calls (snd (receive w output envs True)) = calls w @ ds"
    "set ds \<subseteq> {SocketReceive} \<union> (\<Union>env \<in> set envs. iterationCalls output env True)"
    using receive_calls [of w "output" envs True] by (elim exE conjE) (rule that)
  have n: "newCalls w (snd (receive w output envs True)) = ds"
    using ds(1) by (rule newCallsI)
  have dump: "\<forall>c \<in> set (newCalls w (snd (receive w output envs True))).
         c \<noteq> BreakerIsOpen \<and> c \<noteq> BreakerReset \<and> (\<forall>n. c \<noteq> BreakerTick n)
         \<and> c \<notin> {ConnLeaveGroup, SocketClose, NewSocket, ConnJoinGroup}"
  proof
    fix c
    assume "c \<in> set (newCalls w (snd (receive w output envs True)))"
    then have "c = SocketReceive \<or> (\<exists>env \<in> set envs. c \<in> iterationCalls output env True)"
      using ds(2) by (auto simp: n)
    then show "c \<noteq> BreakerIsOpen \<and> c \<noteq> BreakerReset \<and> (\<forall>n. c \<noteq> BreakerTick n)
         \<and> c \<notin> {ConnLeaveGroup, SocketClose, NewSocket, ConnJoinGroup}"
      using iterationCalls_dump by blast
  qed
  from stream dump show ?thesis
    by (rule conjI)
qed

theorem breaker_only_when_streaming_witness:
  "recvErr ((delivers [dataMsg])\<lparr>breakerOpen := True\<rparr>) = None
   \<and> breakerOpen ((delivers [dataMsg])\<lparr>breakerOpen := True\<rparr>)
   \<and> receive freshConsumer 0 [(delivers [dataMsg])\<lparr>breakerOpen := True\<rparr>] False =
       receive
         (snd (throttle
            (called (received freshConsumer ((delivers [dataMsg])\<lparr>breakerOpen := True\<rparr>))
               [BreakerTick 1, BreakerIsOpen])
            ((delivers [dataMsg])\<lparr>breakerOpen := True\<rparr>)))
         0 [] False
   \<and> newCalls freshConsumer
        (snd (iteration freshConsumer 0 ((delivers [dataMsg])\<lparr>breakerOpen := True\<rparr>) False))
       = [SocketReceive, BreakerTick 1, BreakerIsOpen, ConnLeaveGroup, SocketClose, NewSocket,
          NewConn, SetSocketBufferSize, GetSocketBufferSize, LogDebugf, LogInfof,
          GenerateBPFSampler (F64 7205759403792794 (- 53)), SocketSetBPF,
          BreakerReset, ConnJoinGroup]
   \<and> newCalls freshConsumer (snd (receive freshConsumer 0 [delivers [dataMsg, doneMsg]] True))
       = [SocketReceive, Output 0 \<lparr>msgs = [dataMsg], buffer = Some 0\<rparr>]"
proof -
  let ?env = "(delivers [dataMsg])\<lparr>breakerOpen := True\<rparr>"
  have r: "recvErr ?env = None" and b: "breakerOpen ?env"
    and l: "length (recvMsgs ?env) = 1"
    by (simp_all add: delivers_def)
  have t: "fst (throttle (called (received freshConsumer ?env) [BreakerTick 1, BreakerIsOpen])
      ?env) = None"
    by (simp add: model_defs)
  have i: "newCalls freshConsumer (snd (iteration freshConsumer 0 ?env False))
       = [SocketReceive, BreakerTick 1, BreakerIsOpen, ConnLeaveGroup, SocketClose, NewSocket,
          NewConn, SetSocketBufferSize, GetSocketBufferSize, LogDebugf, LogInfof,
          GenerateBPFSampler (F64 7205759403792794 (- 53)), SocketSetBPF,
          BreakerReset, ConnJoinGroup]"
    by (simp add: model_defs)
  have d: "newCalls freshConsumer (snd (receive freshConsumer 0 [delivers [dataMsg, doneMsg]] True))
       = [SocketReceive, Output 0 \<lparr>msgs = [dataMsg], buffer = Some 0\<rparr>]"
    by (simp add: model_defs)
  from breaker_only_when_streaming
    [of ?env freshConsumer 0 "[]"] r b l t
  have "receive freshConsumer 0 [?env] False =
       receive
         (snd (throttle (called (received freshConsumer ?env) [BreakerTick 1, BreakerIsOpen])
            ?env))
         0 [] False"
    by (auto simp del: receive.simps split: prod.splits option.splits)
  with r b i d show ?thesis
    by (simp del: receive.simps)
qed

text \<open>
  The claim as it was stated fails for the iterations that leave at the error switch: a
  streaming iteration whose read overflows the buffer throttles, and one whose read ends
  the stream returns, and neither calls the circuit breaker.
\<close>

theorem breaker_skipped_counterexample:
  "socketError ''recvmsg: no buffer space available'' = errENOBUF
   \<and> length (recvMsgs (fails ''recvmsg: no buffer space available'')) = 0
   \<and> newCalls freshConsumer
        (snd (iteration freshConsumer 0 (fails ''recvmsg: no buffer space available'') False))
       = [SocketReceive, LogWarnf, ConnLeaveGroup, SocketClose, NewSocket, NewConn,
          SetSocketBufferSize, GetSocketBufferSize, LogDebugf, LogInfof,
          GenerateBPFSampler (F64 7205759403792794 (- 53)), SocketSetBPF,
          BreakerReset, ConnJoinGroup]
   \<and> BreakerTick 0
       \<notin> set (newCalls freshConsumer
                (snd (iteration freshConsumer 0
                        (fails ''recvmsg: no buffer space available'') False)))
   \<and> BreakerIsOpen
       \<notin> set (newCalls freshConsumer
                (snd (iteration freshConsumer 0
                        (fails ''recvmsg: no buffer space available'') False)))
   \<and> socketError ''read: use of closed file'' = errEOF
   \<and> iteration freshConsumer 0 (fails ''read: use of closed file'') False
       = (Return, received freshConsumer (fails ''read: use of closed file''))
   \<and> newCalls freshConsumer
        (snd (iteration freshConsumer 0 (fails ''read: use of closed file'') False))
       = [SocketReceive]"
  by (simp add: model_defs)

section \<open>Done markers\<close>

text \<open>
  Claim C4, as amended. Every event that the receive loop sends, in either mode, goes to
  the output channel of the loop and carries a received batch without its last message
  if that message is a done marker; only the last position is examined. Hence, if done
  markers occur in the received batches in the last position only, no event carries a
  done marker.
\<close>

theorem emitted_batch_without_trailing_done:
  assumes "Output ch ev \<in> set (newCalls w (snd (receive w output envs dump)))"
  shows "ch = output
       \<and> (\<exists>env \<in> set envs.
            Messages ev =
              (if 0 < length (recvMsgs env)
                  \<and> Type (Header (last (recvMsgs env))) = netlink_Done
               then butlast (recvMsgs env) else recvMsgs env))
       \<and> ((\<forall>env \<in> set envs. \<forall>m \<in> set (butlast (recvMsgs env)).
              Type (Header m) \<noteq> netlink_Done) \<longrightarrow>
           (\<forall>m \<in> set (Messages ev). Type (Header m) \<noteq> netlink_Done))"
proof -
  let ?strip = "\<lambda>ms. if 0 < length ms \<and> Type (Header (last ms)) = netlink_Done
                     then butlast ms else ms"
  obtain cs where cs: "calls (snd (receive w output envs dump)) = calls w @ cs"
    "set cs \<subseteq> {SocketReceive} \<union> (\<Union>env \<in> set envs. iterationCalls output env dump)"
    using receive_calls [of w "output" envs dump] by (elim exE conjE) (rule that)
  have "newCalls w (snd (receive w output envs dump)) = cs"
    using cs(1) by (rule newCallsI)
  with assms cs(2) obtain env where env: "env \<in> set envs"
    "Output ch ev \<in> iterationCalls output env dump"
    by auto
  then have ch: "ch = output" and m: "Messages ev = ?strip (recvMsgs env)"
    by (simp_all add: Output_iterationCalls Messages_def)
  have "(\<forall>env \<in> set envs. \<forall>m \<in> set (butlast (recvMsgs env)).
              Type (Header m) \<noteq> netlink_Done) \<longrightarrow>
           (\<forall>m \<in> set (Messages ev). Type (Header m) \<noteq> netlink_Done)"
  proof
    assume "\<forall>env \<in> set envs. \<forall>m \<in> set (butlast (recvMsgs env)).
              Type (Header m) \<noteq> netlink_Done"
    with env(1) have b: "\<forall>m \<in> set (butlast (recvMsgs env)). Type (Header m) \<noteq> netlink_Done"
      by blast
    show "\<forall>m \<in> set (Messages ev). Type (Header m) \<noteq> netlink_Done"
    proof (cases "0 < length (recvMsgs env)
        \<and> Type (Header (last (recvMsgs env))) = netlink_Done")
      case True
      with b m show ?thesis by simp
    next
      case False
      from b False have "\<forall>m \<in> set (recvMsgs env). Type (Header m) \<noteq> netlink_Done"
        by (rule not_Done_butlast)
      moreover from False m have "Messages ev = recvMsgs env"
        by auto
      ultimately show ?thesis by simp
    qed
  qed
  with ch m env(1) show ?thesis
    by blast
qed

theorem emitted_batch_without_trailing_done_witness:
  "Output 0 \<lparr>msgs = [dataMsg], buffer = Some 0\<rparr>
     \<in> set (newCalls freshConsumer
              (snd (receive freshConsumer 0 [delivers [dataMsg, doneMsg]] True)))
   \<and> butlast (recvMsgs (delivers [dataMsg, doneMsg])) = [dataMsg]
   \<and> Type (Header dataMsg) \<noteq> netlink_Done
   \<and> Type (Header (last (recvMsgs (delivers [dataMsg, doneMsg])))) = netlink_Done
   \<and> Messages \<lparr>msgs = [dataMsg], buffer = Some 0\<rparr> = [dataMsg]
   \<and> list_all (\<lambda>m. Type (Header m) \<noteq> netlink_Done)
        (Messages \<lparr>msgs = [dataMsg], buffer = Some 0\<rparr>)"
proof -
  have h: "Output 0 \<lparr>msgs = [dataMsg], buffer = Some 0\<rparr>
     \<in> set (newCalls freshConsumer
              (snd (receive freshConsumer 0 [delivers [dataMsg, doneMsg]] True)))"
    by (simp add: model_defs)
  have d: "Type (Header dataMsg) \<noteq> netlink_Done"
    by (simp add: dataMsg_def netlink_Done_def)
  have r: "butlast (recvMsgs (delivers [dataMsg, doneMsg])) = [dataMsg]"
    by (simp add: delivers_def)
  have b: "\<forall>env \<in> set [delivers [dataMsg, doneMsg]]. \<forall>m \<in> set (butlast (recvMsgs env)).
         Type (Header m) \<noteq> netlink_Done"
    by (simp add: r d)
  have l: "Type (Header (last (recvMsgs (delivers [dataMsg, doneMsg])))) = netlink_Done"
    by (simp add: delivers_def doneMsg_def netlink_Done_def)
  have m: "Messages \<lparr>msgs = [dataMsg], buffer = Some 0\<rparr> = [dataMsg]"
    by (simp add: Messages_def)
  from emitted_batch_without_trailing_done [OF h] b
  have "\<forall>m \<in> set (Messages \<lparr>msgs = [dataMsg], buffer = Some 0\<rparr>).
         Type (Header m) \<noteq> netlink_Done"
    by blast
  then have "list_all (\<lambda>m. Type (Header m) \<noteq> netlink_Done)
        (Messages \<lparr>msgs = [dataMsg], buffer = Some 0\<rparr>)"
    by (simp add: list_all_iff)
  with h d r l m show ?thesis
    by (intro conjI)
qed

text \<open>
  The claim as it was stated fails: of a batch whose done marker is not the last message
  nothing is removed, in streaming mode and in dump mode, and the event that is sent
  carries the done marker.
\<close>

theorem done_marker_emitted_counterexample:
  "Output 0 \<lparr>msgs = [doneMsg, dataMsg], buffer = Some 0\<rparr>
     \<in> set (newCalls freshConsumer
              (snd (receive freshConsumer 0 [delivers [doneMsg, dataMsg]] False)))
   \<and> Output 0 \<lparr>msgs = [doneMsg, dataMsg], buffer = Some 0\<rparr>
     \<in> set (newCalls freshConsumer
              (snd (receive freshConsumer 0 [delivers [doneMsg, dataMsg]] True)))
   \<and> doneMsg \<in> set (Messages \<lparr>msgs = [doneMsg, dataMsg], buffer = Some 0\<rparr>)
   \<and> Type (Header doneMsg) = netlink_Done"
  by (simp add: model_defs Messages_def)

section \<open>Closing the output channels\<close>

text \<open>
  The task of \<^verbatim>\<open>Events\<close> never closes its channel, whatever ends the loop. The task of
  \<^verbatim>\<open>DumpTable\<close> defers the close: when it returns, its last call closes its channel, and
  there is no other close.
\<close>

lemma Events_never_closes:
  "CloseOutput ch \<notin> set (newCalls w (snd (Events w output envs)))"
proof -
  obtain cs where cs: "calls (snd (receive (called w [ConnJoinGroup]) output envs False)) =
      calls (called w [ConnJoinGroup]) @ cs"
    "set cs \<subseteq> {SocketReceive} \<union> (\<Union>env \<in> set envs. iterationCalls output env False)"
    using receive_calls [of "called w [ConnJoinGroup]" "output" envs False]
    by (elim exE conjE) (rule that)
  have "newCalls w (snd (Events w output envs)) = ConnJoinGroup # cs"
    by (rule newCallsI) (simp add: Events_def cs(1))
  moreover have "CloseOutput ch \<notin> set cs"
    using cs(2) by auto
  ultimately show ?thesis
    by simp
qed

lemma DumpTable_closes_once:
  "(fst (DumpTable w output family denv envs) = Returned \<longrightarrow>
      (\<exists>cs. newCalls w (snd (DumpTable w output family denv envs)) = cs @ [CloseOutput output]
         \<and> (\<forall>ch. CloseOutput ch \<notin> set cs)))
   \<and> (fst (DumpTable w output family denv envs) = Blocked \<longrightarrow>
      (\<forall>ch. CloseOutput ch \<notin> set (newCalls w (snd (DumpTable w output family denv envs)))))"
proof -
  let ?w2 = "called w [ConnSend (dumpRequest family), Validate]"
  obtain cs where cs: "calls (snd (receive ?w2 output envs True)) = calls ?w2 @ cs"
    "set cs \<subseteq> {SocketReceive} \<union> (\<Union>env \<in> set envs. iterationCalls output env True)"
    using receive_calls [of ?w2 "output" envs True]
    by (elim exE conjE) (rule that)
  have nc: "\<forall>ch. CloseOutput ch \<notin> set cs"
    using cs(2) by auto
  obtain r w3 where rw: "receive ?w2 output envs True = (r, w3)"
    by (cases "receive ?w2 output envs True")
  with cs(1) have c3: "calls w3 = calls w @ ConnSend (dumpRequest family) # Validate # cs"
    by simp
  show ?thesis
  proof (cases "sendErr denv")
    case (Some e)
    have "newCalls w (snd (DumpTable w output family denv envs)) =
        [ConnSend (dumpRequest family), LogErrorf] @ [CloseOutput output]"
      by (rule newCallsI) (simp add: DumpTable_def Some)
    with Some show ?thesis
      by (auto simp: DumpTable_def)
  next
    case None
    note s = None
    show ?thesis
    proof (cases "validateErr denv")
      case (Some e)
      have "newCalls w (snd (DumpTable w output family denv envs)) =
          [ConnSend (dumpRequest family), Validate, LogErrorf] @ [CloseOutput output]"
        by (rule newCallsI) (simp add: DumpTable_def s Some)
      with s Some show ?thesis
        by (auto simp: DumpTable_def)
    next
      case None
      show ?thesis
      proof (cases r)
        case Returned
        have "newCalls w (snd (DumpTable w output family denv envs)) =
            (ConnSend (dumpRequest family) # Validate # cs) @ [CloseOutput output]"
          by (rule newCallsI) (simp add: DumpTable_def s None rw Returned c3)
        moreover have "fst (DumpTable w output family denv envs) = Returned"
          by (simp add: DumpTable_def s None rw Returned)
        ultimately show ?thesis
          using nc by auto
      next
        case Blocked
        have "newCalls w (snd (DumpTable w output family denv envs)) =
            ConnSend (dumpRequest family) # Validate # cs"
          by (rule newCallsI) (simp add: DumpTable_def s None rw Blocked c3)
        moreover have "fst (DumpTable w output family denv envs) = Blocked"
          by (simp add: DumpTable_def s None rw Blocked)
        ultimately show ?thesis
          using nc by auto
      qed
    qed
  qed
qed

text \<open>
  Claim C2. The claim is that the output channel of \<^verbatim>\<open>Events\<close>, like the one of
  \<^verbatim>\<open>DumpTable\<close>, is closed once when the receive loop ends. The comment of \<^verbatim>\<open>receive\<close> says
  the same. On the input below the socket reports that it is closed: the streaming loop
  returns after the calls \<^verbatim>\<open>JoinGroup\<close> and \<^verbatim>\<open>Receive\<close>, and the channel is not closed, while
  the task of \<^verbatim>\<open>DumpTable\<close> closes its channel on the same answer.
\<close>

theorem Events_leaves_output_open:
  "socketError ''read: use of closed file'' = errEOF
   \<and> fst (Events freshConsumer 0 [fails ''read: use of closed file'']) = Returned
   \<and> newCalls freshConsumer (snd (Events freshConsumer 0 [fails ''read: use of closed file'']))
       = [ConnJoinGroup, SocketReceive]
   \<and> CloseOutput 0
       \<notin> set (calls (snd (Events freshConsumer 0 [fails ''read: use of closed file''])))
   \<and> fst (DumpTable freshConsumer 0 2 \<lparr>sendErr = None, validateErr = None\<rparr>
            [fails ''read: use of closed file'']) = Returned
   \<and> newCalls freshConsumer
        (snd (DumpTable freshConsumer 0 2 \<lparr>sendErr = None, validateErr = None\<rparr>
                [fails ''read: use of closed file'']))
       = [ConnSend (dumpRequest 2), Validate, SocketReceive, CloseOutput 0]"
  by (simp add: model_defs)

section \<open>Releasing an event twice\<close>

text \<open>
  Claim C3, as amended. For an event with a buffer, every \<^verbatim>\<open>Done\<close> puts the buffer into
  the pool once more: after the second \<^verbatim>\<open>Done\<close> the free items hold the buffer one more
  time than after the first, and the two pools differ. \<^verbatim>\<open>Done\<close> leaves the pool as it is
  only for an event without a buffer.
\<close>

theorem Done_puts_each_time:
  "(buffer e = Some b \<longrightarrow>
      Done e p = p\<lparr>Pool := b # Pool p\<rparr>
      \<and> Done e (Done e p) = p\<lparr>Pool := b # b # Pool p\<rparr>
      \<and> count_list (Pool (Done e (Done e p))) b = count_list (Pool (Done e p)) b + 1
      \<and> Done e (Done e p) \<noteq> Done e p)
   \<and> (buffer e = None \<longrightarrow> Done e p = p \<and> Done e (Done e p) = Done e p)"
proof -
  have "p\<lparr>Pool := b # b # Pool p\<rparr> \<noteq> p\<lparr>Pool := b # Pool p\<rparr>"
  proof
    assume "p\<lparr>Pool := b # b # Pool p\<rparr> = p\<lparr>Pool := b # Pool p\<rparr>"
    then have "Pool (p\<lparr>Pool := b # b # Pool p\<rparr>) = Pool (p\<lparr>Pool := b # Pool p\<rparr>)"
      by (rule arg_cong)
    then show False
      by simp
  qed
  then show ?thesis
    by (simp add: Done_def Put_def)
qed

theorem Done_puts_each_time_witness:
  "buffer \<lparr>msgs = [dataMsg], buffer = Some 0\<rparr> = Some 0
   \<and> Pool (Done \<lparr>msgs = [dataMsg], buffer = Some 0\<rparr>
             (Done \<lparr>msgs = [dataMsg], buffer = Some 0\<rparr>
                \<lparr>inUse = Some 0, Pool = [], allocated = 1\<rparr>)) = [0, 0]
   \<and> buffer \<lparr>msgs = [], buffer = None\<rparr> = None
   \<and> Done \<lparr>msgs = [], buffer = None\<rparr> \<lparr>inUse = None, Pool = [], allocated = 1\<rparr>
       = \<lparr>inUse = None, Pool = [], allocated = 1\<rparr>"
  using
    Done_puts_each_time [of "\<lparr>msgs = [dataMsg], buffer = Some 0\<rparr>" 0
      "\<lparr>inUse = Some 0, Pool = [], allocated = 1\<rparr>"]
    Done_puts_each_time [of "\<lparr>msgs = [], buffer = None\<rparr>" 0
      "\<lparr>inUse = None, Pool = [], allocated = 1\<rparr>"]
  by (simp add: Done_def Put_def)

text \<open>
  The claim as it was stated fails: the first iteration of a fresh consumer lends the
  buffer \<open>0\<close> to its event. One \<^verbatim>\<open>Done\<close> of that event leaves one free item, a second one
  leaves two, and the next two calls of \<^verbatim>\<open>Get\<close> then hand out the same buffer; after a
  single \<^verbatim>\<open>Done\<close> the second \<^verbatim>\<open>Get\<close> allocates a new buffer.
\<close>

theorem Done_twice_counterexample:
  "pool (snd (iteration freshConsumer 0 (delivers [dataMsg]) False))
     = \<lparr>inUse = Some 0, Pool = [], allocated = 1\<rparr>
   \<and> last (calls (snd (iteration freshConsumer 0 (delivers [dataMsg]) False)))
     = Output 0 \<lparr>msgs = [dataMsg], buffer = Some 0\<rparr>
   \<and> Done \<lparr>msgs = [dataMsg], buffer = Some 0\<rparr> \<lparr>inUse = Some 0, Pool = [], allocated = 1\<rparr>
     = \<lparr>inUse = Some 0, Pool = [0], allocated = 1\<rparr>
   \<and> Done \<lparr>msgs = [dataMsg], buffer = Some 0\<rparr>
       (Done \<lparr>msgs = [dataMsg], buffer = Some 0\<rparr> \<lparr>inUse = Some 0, Pool = [], allocated = 1\<rparr>)
     = \<lparr>inUse = Some 0, Pool = [0, 0], allocated = 1\<rparr>
   \<and> Done \<lparr>msgs = [dataMsg], buffer = Some 0\<rparr>
       (Done \<lparr>msgs = [dataMsg], buffer = Some 0\<rparr> \<lparr>inUse = Some 0, Pool = [], allocated = 1\<rparr>)
     \<noteq> Done \<lparr>msgs = [dataMsg], buffer = Some 0\<rparr> \<lparr>inUse = Some 0, Pool = [], allocated = 1\<rparr>
   \<and> fst (Get \<lparr>inUse = Some 0, Pool = [0, 0], allocated = 1\<rparr>) = 0
   \<and> fst (Get (snd (Get \<lparr>inUse = Some 0, Pool = [0, 0], allocated = 1\<rparr>))) = 0
   \<and> fst (Get (snd (Get \<lparr>inUse = Some 0, Pool = [0], allocated = 1\<rparr>))) = 1"
  by (simp add: model_defs)

end
